theory Spec2Isabelle
  imports Main "HOL-Library.Multiset"
begin

section \<open>The lock-free pool of \<^verbatim>\<open>pool/pool.go\<close>\<close>

text \<open>
  The pool keeps two \<^verbatim>\<open>sync.Pool\<close> caches of pointers to slices (batches):
  \<^verbatim>\<open>emptyPool\<close> holds batches with room to grow, \<^verbatim>\<open>fullPool\<close> holds batches ready to
  be consumed. \<^verbatim>\<open>Get\<close> pops the last element of a batch of \<^verbatim>\<open>fullPool\<close>, \<^verbatim>\<open>Put\<close> appends
  to a batch of \<^verbatim>\<open>emptyPool\<close>; a batch changes cache when it runs empty or full.

  The model is sequential: one call runs at a time. What the environment decides (which
  resident batch a cache hands out, how far the runtime grows a slice that is appended to
  beyond its capacity) is an argument of the operation, so every theorem below holds for
  all such decisions.
\<close>

subsection \<open>Values, slices and panics\<close>

text \<open>A value of Go's \<^verbatim>\<open>interface{}\<close>: \<open>None\<close> is the nil interface, the zero value
  that \<^verbatim>\<open>make\<close> fills a new slice with.\<close>

type_synonym 'a iface = "'a option"

text \<open>A batch is a \<^verbatim>\<open>*[]interface{}\<close>: \<open>ptr\<close> is the address of the slice header that
  \<^verbatim>\<open>&p\<close> allocates, \<open>elems\<close> the elements below \<^verbatim>\<open>len\<close>, \<open>cap\<close> the capacity
  of the backing array. Elements between \<^verbatim>\<open>len\<close> and \<^verbatim>\<open>cap\<close> cannot be read through the
  slice and are not kept.\<close>

record 'a slice =
  ptr :: nat
  elems :: "'a iface list"
  cap :: nat

text \<open>The run-time panics the code can raise. The memory limit of \<^verbatim>\<open>make\<close> and a
  panic of the factory itself are outside the model.\<close>

datatype panic = IndexOutOfRange | MakesliceLenOutOfRange | MakesliceCapOutOfRange

text \<open>\<^verbatim>\<open>make([]interface{}, len, cap)\<close>: the runtime reports a negative length first,
  then a capacity below the length (a negative capacity among them).\<close>

definition make_slice :: "int \<Rightarrow> int \<Rightarrow> panic + ('a iface list \<times> nat)" where
  "make_slice len c =
     (if len < 0 then Inl MakesliceLenOutOfRange
      else if c < len then Inl MakesliceCapOutOfRange
      else Inr (replicate (nat len) None, nat c))"

text \<open>\<^verbatim>\<open>append(s, x)\<close>: within the capacity the backing array is reused; beyond it the
  runtime allocates a larger one. Go only promises that the new array is large enough, so
  the growth policy \<open>grow\<close> is a parameter.\<close>

definition append_slice :: "(nat \<Rightarrow> nat) \<Rightarrow> 'a slice \<Rightarrow> 'a iface \<Rightarrow> 'a slice" where
  "append_slice grow s x =
     (if length (elems s) < cap s then s\<lparr>elems := elems s @ [x]\<rparr>
      else s\<lparr>elems := elems s @ [x], cap := max (length (elems s) + 1) (grow (cap s))\<rparr>)"

subsection \<open>The underlying cache\<close>

text \<open>Modelled from the spec: \<^verbatim>\<open>sync.Pool\<close> is the external single-slot-per-thread cache;
  its contract is that \<^verbatim>\<open>Get\<close> returns a previously stored value if the cache holds one
  (no ordering guarantee) and calls the factory \<^verbatim>\<open>New\<close> otherwise. The cache is the list of
  its resident values; \<open>ch\<close> selects which resident is handed out, so that every
  resident can be; \<open>None\<close> stands for the call of \<^verbatim>\<open>New\<close>, which the caller supplies.
  That the Go runtime may drop residents of a \<^verbatim>\<open>sync.Pool\<close> at a garbage collection is
  outside this contract and outside the model.\<close>

definition sync_get :: "nat \<Rightarrow> 'b list \<Rightarrow> ('b \<times> 'b list) option" where
  "sync_get ch items =
     (if items = [] then None
      else let i = ch mod length items
           in Some (items ! i, take i items @ drop (Suc i) items))"

text \<open>Modelled from the spec: \<^verbatim>\<open>sync.Pool.Put\<close> stores the value back in the cache.\<close>

definition sync_put :: "'b \<Rightarrow> 'b list \<Rightarrow> 'b list" where
  "sync_put b items = b # items"

subsection \<open>The pool\<close>

text \<open>The struct \<^verbatim>\<open>LockFreePool\<close> with the residents of its two caches and its factory.
  The factory is a Go closure that may keep state: \<open>alloc i\<close> is what its call number
  \<open>i\<close> returns, and \<open>allocs\<close> counts the calls made so far. \<open>poolSizePerCPU\<close> and
  \<open>initFullPoolSize\<close> are the validated sizes captured by the closures \<^verbatim>\<open>newEmptySlice\<close>
  and \<^verbatim>\<open>newFullSlice\<close>; \<open>next_ptr\<close> is the next fresh address.\<close>

record 'a LockFreePool =
  emptyPool :: "'a slice list"
  fullPool :: "'a slice list"
  alloc :: "nat \<Rightarrow> 'a iface"
  poolSizePerCPU :: int
  initFullPoolSize :: int
  allocs :: nat
  next_ptr :: nat

definition POOL_SIZE_PER_CPU :: int where
  "POOL_SIZE_PER_CPU = 256"

definition INIT_FULL_POOL_SIZE :: int where
  "INIT_FULL_POOL_SIZE = 256"

text \<open>An element of the variadic \<^verbatim>\<open>options ...Option\<close>: \<^verbatim>\<open>Option\<close> is \<^verbatim>\<open>interface{}\<close>, so
  a caller may pass a value of any other dynamic type as well (\<open>OtherValue\<close>; the
  code never looks at it).\<close>

datatype Option = OptionPoolSizePerCPU int | OptionInitFullPoolSize int | OtherValue

text \<open>The loop over the options in \<^verbatim>\<open>NewLockFreePool\<close>, on the pair
  (\<^verbatim>\<open>poolSizePerCPU\<close>, \<^verbatim>\<open>initFullPoolSize\<close>).\<close>

fun apply_options :: "Option list \<Rightarrow> int \<times> int \<Rightarrow> int \<times> int" where
  "apply_options [] (k, n) = (k, n)"
| "apply_options (opt # options) (k, n) =
     (case opt of
        OptionPoolSizePerCPU sz \<Rightarrow> apply_options options (sz, n)
      | OptionInitFullPoolSize sz \<Rightarrow> apply_options options (k, sz)
      | OtherValue \<Rightarrow> apply_options options (k, n))"

definition validate :: "int \<times> int \<Rightarrow> int \<times> int" where
  "validate kn =
     (case kn of (k, n) \<Rightarrow>
        if k < n \<or> n \<le> 0 then (POOL_SIZE_PER_CPU, INIT_FULL_POOL_SIZE) else (k, n))"

definition NewLockFreePool :: "(nat \<Rightarrow> 'a iface) \<Rightarrow> Option list \<Rightarrow> 'a LockFreePool" where
  "NewLockFreePool f options =
     (case validate (apply_options options (POOL_SIZE_PER_CPU, INIT_FULL_POOL_SIZE)) of
        (k, n) \<Rightarrow>
          \<lparr>emptyPool = [], fullPool = [], alloc = f,
           poolSizePerCPU = k, initFullPoolSize = n, allocs = 0, next_ptr = 0\<rparr>)"

text \<open>The closure \<^verbatim>\<open>newEmptySlice\<close>.\<close>

definition newEmptySlice :: "'a LockFreePool \<Rightarrow> panic + ('a slice \<times> 'a LockFreePool)" where
  "newEmptySlice p =
     (case make_slice 0 (poolSizePerCPU p) of
        Inl e \<Rightarrow> Inl e
      | Inr (es, c) \<Rightarrow>
          Inr (\<lparr>ptr = next_ptr p, elems = es, cap = c\<rparr>, p\<lparr>next_ptr := Suc (next_ptr p)\<rparr>))"

text \<open>The loop of \<^verbatim>\<open>newFullSlice\<close>: slot \<open>i\<close> receives the next value of the factory;
  \<open>c\<close> is the number of factory calls made before.\<close>

function fill_loop ::
  "(nat \<Rightarrow> 'a iface) \<Rightarrow> nat \<Rightarrow> int \<Rightarrow> 'a iface list \<Rightarrow> nat \<Rightarrow> panic + ('a iface list \<times> nat)"
where
  "fill_loop f i n p c =
     (if int i < n
      then (if i < length p then fill_loop f (Suc i) n (p[i := f c]) (Suc c)
            else Inl IndexOutOfRange)
      else Inr (p, c))"
  by pat_completeness auto
termination
  by (relation "measure (\<lambda>(f, i, n, p, c). nat n - i)") auto

declare fill_loop.simps [simp del]

text \<open>The closure \<^verbatim>\<open>newFullSlice\<close>.\<close>

definition newFullSlice :: "'a LockFreePool \<Rightarrow> panic + ('a slice \<times> 'a LockFreePool)" where
  "newFullSlice p =
     (case make_slice (initFullPoolSize p) (poolSizePerCPU p) of
        Inl e \<Rightarrow> Inl e
      | Inr (es, c) \<Rightarrow>
          (case fill_loop (alloc p) 0 (initFullPoolSize p) es (allocs p) of
             Inl e \<Rightarrow> Inl e
           | Inr (es', calls) \<Rightarrow>
               Inr (\<lparr>ptr = next_ptr p, elems = es', cap = c\<rparr>,
                    p\<lparr>allocs := calls, next_ptr := Suc (next_ptr p)\<rparr>)))"

text \<open>\<^verbatim>\<open>p.fullPool.Get()\<close> and \<^verbatim>\<open>p.emptyPool.Get()\<close>: a resident batch leaves its cache,
  or the cache's \<^verbatim>\<open>New\<close> makes one.\<close>

definition fullPool_Get :: "nat \<Rightarrow> 'a LockFreePool \<Rightarrow> panic + ('a slice \<times> 'a LockFreePool)" where
  "fullPool_Get ch p =
     (case sync_get ch (fullPool p) of
        Some (b, rest) \<Rightarrow> Inr (b, p\<lparr>fullPool := rest\<rparr>)
      | None \<Rightarrow> newFullSlice p)"

definition emptyPool_Get :: "nat \<Rightarrow> 'a LockFreePool \<Rightarrow> panic + ('a slice \<times> 'a LockFreePool)" where
  "emptyPool_Get ch p =
     (case sync_get ch (emptyPool p) of
        Some (b, rest) \<Rightarrow> Inr (b, p\<lparr>emptyPool := rest\<rparr>)
      | None \<Rightarrow> newEmptySlice p)"

text \<open>\<^verbatim>\<open>LockFreePool.Get\<close>. The index \<^verbatim>\<open>len(pool)-1\<close> is out of range for an empty
  batch.\<close>

definition Get :: "nat \<Rightarrow> 'a LockFreePool \<Rightarrow> panic + ('a iface \<times> 'a LockFreePool)" where
  "Get ch p =
     (case fullPool_Get ch p of
        Inl e \<Rightarrow> Inl e
      | Inr (elemPool, p1) \<Rightarrow>
          (let pool = elems elemPool in
           if length pool = 0 then Inl IndexOutOfRange
           else
             (let e = pool ! (length pool - 1);
                  elemPool' = elemPool\<lparr>elems := take (length pool - 1) pool\<rparr>
              in if length pool > 1
                 then Inr (e, p1\<lparr>fullPool := sync_put elemPool' (fullPool p1)\<rparr>)
                 else Inr (e, p1\<lparr>emptyPool := sync_put elemPool' (emptyPool p1)\<rparr>))))"

text \<open>\<^verbatim>\<open>LockFreePool.Put\<close>.\<close>

definition Put ::
  "(nat \<Rightarrow> nat) \<Rightarrow> nat \<Rightarrow> 'a iface \<Rightarrow> 'a LockFreePool \<Rightarrow> panic + 'a LockFreePool" where
  "Put grow ch x p =
     (case emptyPool_Get ch p of
        Inl e \<Rightarrow> Inl e
      | Inr (pool, p1) \<Rightarrow>
          (let pool' = append_slice grow pool x in
           if length (elems pool') < cap pool'
           then Inr (p1\<lparr>emptyPool := sync_put pool' (emptyPool p1)\<rparr>)
           else Inr (p1\<lparr>fullPool := sync_put pool' (fullPool p1)\<rparr>)))"

subsection \<open>Runs of the pool\<close>

text \<open>One call on the pool: \<^verbatim>\<open>Get()\<close> or \<^verbatim>\<open>Put(x)\<close>, each with the choice of its cache.\<close>

datatype 'a op = OpGet nat | OpPut nat "'a iface"

text \<open>A single-threaded sequence of calls, run to the end or to the first panic; the
  values returned by the calls of \<^verbatim>\<open>Get\<close> are collected in order.\<close>

fun run ::
  "(nat \<Rightarrow> nat) \<Rightarrow> 'a op list \<Rightarrow> 'a LockFreePool \<Rightarrow> panic + ('a iface list \<times> 'a LockFreePool)"
where
  "run grow [] p = Inr ([], p)"
| "run grow (OpGet ch # ops) p =
     (case Get ch p of
        Inl e \<Rightarrow> Inl e
      | Inr (v, p') \<Rightarrow>
          (case run grow ops p' of Inl e \<Rightarrow> Inl e | Inr (vs, p'') \<Rightarrow> Inr (v # vs, p'')))"
| "run grow (OpPut ch x # ops) p =
     (case Put grow ch x p of
        Inl e \<Rightarrow> Inl e
      | Inr p' \<Rightarrow> run grow ops p')"

text \<open>The states a pool can be in: what \<^verbatim>\<open>NewLockFreePool\<close> returns, and what a call of
  \<^verbatim>\<open>Get\<close> or \<^verbatim>\<open>Put\<close> that returns leaves behind.\<close>

inductive reachable :: "(nat \<Rightarrow> nat) \<Rightarrow> 'a LockFreePool \<Rightarrow> bool" for grow :: "nat \<Rightarrow> nat" where
  reachable_New: "reachable grow (NewLockFreePool f options)"
| reachable_Get: "reachable grow p \<Longrightarrow> Get ch p = Inr (v, p') \<Longrightarrow> reachable grow p'"
| reachable_Put: "reachable grow p \<Longrightarrow> Put grow ch x p = Inr p' \<Longrightarrow> reachable grow p'"

subsection \<open>Invariants\<close>

text \<open>The validated configuration: \<open>0 < N \<le> K\<close>.\<close>

definition config_ok :: "'a LockFreePool \<Rightarrow> bool" where
  "config_ok p \<longleftrightarrow> 0 < initFullPoolSize p \<and> initFullPoolSize p \<le> poolSizePerCPU p"

text \<open>A batch that may reside in the growing cache, and one that may reside in the ready
  cache, for batch capacity \<open>k\<close>.\<close>

definition growing_ok :: "nat \<Rightarrow> 'a slice \<Rightarrow> bool" where
  "growing_ok k b \<longleftrightarrow> cap b = k \<and> length (elems b) < k"

definition ready_ok :: "nat \<Rightarrow> 'a slice \<Rightarrow> bool" where
  "ready_ok k b \<longleftrightarrow> cap b = k \<and> 1 \<le> length (elems b) \<and> length (elems b) \<le> k"

definition pool_inv :: "'a LockFreePool \<Rightarrow> bool" where
  "pool_inv p \<longleftrightarrow>
     config_ok p \<and>
     list_all (growing_ok (nat (poolSizePerCPU p))) (emptyPool p) \<and>
     list_all (ready_ok (nat (poolSizePerCPU p))) (fullPool p)"

text \<open>Ownership: every resident batch has its own address, below the next fresh one, so
  no batch resides in a cache twice or in both caches.\<close>

definition ptr_inv :: "'a LockFreePool \<Rightarrow> bool" where
  "ptr_inv p \<longleftrightarrow>
     distinct (map ptr (emptyPool p @ fullPool p)) \<and>
     list_all (\<lambda>b. ptr b < next_ptr p) (emptyPool p @ fullPool p)"

text \<open>The values held by the batches of a cache.\<close>

definition held :: "'a slice list \<Rightarrow> 'a iface multiset" where
  "held bs = mset (concat (map elems bs))"

text \<open>A factory that returns the integers 1, 2, 3, ... in turn.\<close>

definition seq_factory :: "nat \<Rightarrow> int iface" where
  "seq_factory i = Some (int i + 1)"

text \<open>The pool of the specification's example: \<open>K = 4\<close>, \<open>N = 2\<close>, on the factory
  of sequential integers; and the state that three calls of \<^verbatim>\<open>Get\<close> leave it in.\<close>

definition pool_4_2 :: "int LockFreePool" where
  "pool_4_2 = NewLockFreePool seq_factory [OptionPoolSizePerCPU 4, OptionInitFullPoolSize 2]"

definition pool_4_2_after :: "int LockFreePool" where
  "pool_4_2_after =
     \<lparr>emptyPool = [\<lparr>ptr = 0, elems = [], cap = 4\<rparr>],
      fullPool = [\<lparr>ptr = 1, elems = [Some 3], cap = 4\<rparr>],
      alloc = seq_factory, poolSizePerCPU = 4, initFullPoolSize = 2,
      allocs = 4, next_ptr = 2\<rparr>"

text \<open>A pool with \<open>K = 1\<close>, \<open>N = 1\<close> after its first \<^verbatim>\<open>Get\<close>, and after a \<^verbatim>\<open>Put\<close>
  of the value 9 that follows.\<close>

definition pool_1_1_drained :: "int LockFreePool" where
  "pool_1_1_drained =
     \<lparr>emptyPool = [\<lparr>ptr = 0, elems = [], cap = 1\<rparr>], fullPool = [],
      alloc = seq_factory, poolSizePerCPU = 1, initFullPoolSize = 1,
      allocs = 1, next_ptr = 1\<rparr>"

definition pool_1_1_refilled :: "int LockFreePool" where
  "pool_1_1_refilled =
     \<lparr>emptyPool = [], fullPool = [\<lparr>ptr = 0, elems = [Some 9], cap = 1\<rparr>],
      alloc = seq_factory, poolSizePerCPU = 1, initFullPoolSize = 1,
      allocs = 1, next_ptr = 1\<rparr>"

section \<open>Basic facts\<close>

subsection \<open>The batch constructors and the cache\<close>

lemma fill_loop_closed:
  "int (length p) = n \<Longrightarrow> i \<le> length p \<Longrightarrow>
   fill_loop f i n p c = Inr (take i p @ map f [c ..< c + (length p - i)], c + (length p - i))"
proof (induction f i n p c rule: fill_loop.induct)
  case (1 f i n p c)
  show ?case
  proof (cases "i < length p")
    case True
    with "1.prems" have lt: "int i < n" by simp
    have step: "fill_loop f i n p c = fill_loop f (Suc i) n (p[i := f c]) (Suc c)"
      using lt True by (subst fill_loop.simps) simp
    have ih: "fill_loop f (Suc i) n (p[i := f c]) (Suc c) =
              Inr (take (Suc i) (p[i := f c]) @ map f [Suc c ..< Suc c + (length p - Suc i)],
                   Suc c + (length p - Suc i))"
      using "1.IH" [OF lt True] "1.prems" True by simp
    have tk: "take (Suc i) (p[i := f c]) = take i p @ [f c]"
      using True by (simp add: take_Suc_conv_app_nth)
    have up: "[c ..< c + (length p - i)] = c # [Suc c ..< Suc c + (length p - Suc i)]"
      using True by (simp add: upt_conv_Cons Suc_diff_Suc)
    show ?thesis
      unfolding step ih tk up using True by simp
  next
    case False
    with "1.prems" have "i = length p" by simp
    then show ?thesis
      using "1.prems" by (subst fill_loop.simps) simp
  qed
qed

lemma newFullSlice_closed:
  "config_ok p \<Longrightarrow>
   newFullSlice p =
     Inr (\<lparr>ptr = next_ptr p,
           elems = map (alloc p) [allocs p ..< allocs p + nat (initFullPoolSize p)],
           cap = nat (poolSizePerCPU p)\<rparr>,
          p\<lparr>allocs := allocs p + nat (initFullPoolSize p), next_ptr := Suc (next_ptr p)\<rparr>)"
  by (simp add: newFullSlice_def make_slice_def config_ok_def fill_loop_closed)

lemma newEmptySlice_closed:
  "0 \<le> poolSizePerCPU p \<Longrightarrow>
   newEmptySlice p =
     Inr (\<lparr>ptr = next_ptr p, elems = [], cap = nat (poolSizePerCPU p)\<rparr>,
          p\<lparr>next_ptr := Suc (next_ptr p)\<rparr>)"
  by (simp add: newEmptySlice_def make_slice_def)

lemma sync_get_Nil [simp]: "sync_get ch [] = None"
  by (simp add: sync_get_def)

lemma sync_get_None_iff: "sync_get ch items = None \<longleftrightarrow> items = []"
  by (simp add: sync_get_def Let_def)

lemma sync_get_SomeD:
  assumes "sync_get ch items = Some (b, rest)"
  shows "\<exists>ys zs. items = ys @ b # zs \<and> rest = ys @ zs"
proof -
  from assms have ne: "items \<noteq> []" by (auto simp: sync_get_def)
  define i where "i = ch mod length items"
  have i: "i < length items" using ne by (simp add: i_def)
  from assms ne have b: "b = items ! i" and r: "rest = take i items @ drop (Suc i) items"
    by (simp_all add: sync_get_def Let_def i_def)
  have "items = take i items @ b # drop (Suc i) items"
    using i b by (simp add: id_take_nth_drop)
  with r show ?thesis by blast
qed

lemma sync_get_nonempty:
  "items \<noteq> [] \<Longrightarrow> \<exists>b rest. sync_get ch items = Some (b, rest)"
  by (simp add: sync_get_def Let_def)

lemma sync_get_single [simp]: "sync_get ch [b] = Some (b, [])"
  by (simp add: sync_get_def)

subsection \<open>What one call does\<close>

lemma Get_resident:
  assumes "sync_get ch (fullPool p) = Some (b, rest)" and "elems b \<noteq> []"
  shows "Get ch p =
     Inr (last (elems b),
          if 1 < length (elems b)
          then p\<lparr>fullPool := b\<lparr>elems := butlast (elems b)\<rparr> # rest\<rparr>
          else p\<lparr>fullPool := rest, emptyPool := b\<lparr>elems := []\<rparr> # emptyPool p\<rparr>)"
proof -
  have l: "elems b ! (length (elems b) - Suc 0) = last (elems b)"
    using assms(2) by (simp add: last_conv_nth)
  have t: "take (length (elems b) - Suc 0) (elems b) = butlast (elems b)"
    by (simp add: butlast_conv_take)
  have e: "\<not> Suc 0 < length (elems b) \<Longrightarrow> butlast (elems b) = []"
    using assms(2) by (cases "elems b") auto
  show ?thesis
    using assms l e by (auto simp add: Get_def fullPool_Get_def Let_def t sync_put_def)
qed

lemma Get_fresh:
  assumes "fullPool p = []" and "config_ok p"
  shows "Get ch p =
     Inr (alloc p (allocs p + nat (initFullPoolSize p) - 1),
          if 1 < initFullPoolSize p
          then p\<lparr>fullPool := [\<lparr>ptr = next_ptr p,
                               elems = map (alloc p) [allocs p ..< allocs p + nat (initFullPoolSize p) - 1],
                               cap = nat (poolSizePerCPU p)\<rparr>],
                 allocs := allocs p + nat (initFullPoolSize p), next_ptr := Suc (next_ptr p)\<rparr>
          else p\<lparr>emptyPool := \<lparr>ptr = next_ptr p, elems = [], cap = nat (poolSizePerCPU p)\<rparr> # emptyPool p,
                 allocs := allocs p + nat (initFullPoolSize p), next_ptr := Suc (next_ptr p)\<rparr>)"
proof -
  define N where "N = nat (initFullPoolSize p)"
  have N: "0 < N" using assms(2) by (simp add: N_def config_ok_def)
  have up: "[allocs p ..< allocs p + N] = [allocs p ..< allocs p + N - 1] @ [allocs p + N - 1]"
    using N by (cases N) simp_all
  have one: "\<not> 1 < initFullPoolSize p \<Longrightarrow> N = 1"
    using assms(2) by (auto simp add: N_def config_ok_def)
  have gt: "1 < initFullPoolSize p \<Longrightarrow> 1 < N"
    by (simp add: N_def)
  show ?thesis
    using assms N one gt
    by (simp add: Get_def fullPool_Get_def newFullSlice_closed Let_def sync_put_def
          N_def [symmetric] up take_map nth_append)
qed

lemma append_slice_room:
  "length (elems b) < cap b \<Longrightarrow> append_slice grow b x = b\<lparr>elems := elems b @ [x]\<rparr>"
  by (simp add: append_slice_def)

lemma append_slice_elems [simp]: "elems (append_slice grow b x) = elems b @ [x]"
  by (simp add: append_slice_def)

lemma append_slice_ptr [simp]: "ptr (append_slice grow b x) = ptr b"
  by (simp add: append_slice_def)

lemma append_slice_fits:
  "length (elems b) \<le> cap b \<Longrightarrow>
   length (elems (append_slice grow b x)) \<le> cap (append_slice grow b x)"
  by (simp add: append_slice_def)

lemma Put_resident:
  assumes "sync_get ch (emptyPool p) = Some (b, rest)"
  shows "Put grow ch x p =
     Inr (if length (elems (append_slice grow b x)) < cap (append_slice grow b x)
          then p\<lparr>emptyPool := append_slice grow b x # rest\<rparr>
          else p\<lparr>emptyPool := rest, fullPool := append_slice grow b x # fullPool p\<rparr>)"
  using assms by (simp add: Put_def emptyPool_Get_def Let_def sync_put_def)

lemma Put_fresh:
  assumes "emptyPool p = []" and "0 < poolSizePerCPU p"
  shows "Put grow ch x p =
     Inr (if 1 < poolSizePerCPU p
          then p\<lparr>next_ptr := Suc (next_ptr p),
                 emptyPool := [\<lparr>ptr = next_ptr p, elems = [x], cap = nat (poolSizePerCPU p)\<rparr>]\<rparr>
          else p\<lparr>next_ptr := Suc (next_ptr p),
                 fullPool := \<lparr>ptr = next_ptr p, elems = [x], cap = nat (poolSizePerCPU p)\<rparr>
                             # fullPool p\<rparr>)"
  using assms
  by (auto simp add: Put_def emptyPool_Get_def newEmptySlice_closed Let_def sync_put_def
        append_slice_def)

subsection \<open>The invariant of the sizes\<close>

lemma NewLockFreePool_config_ok: "config_ok (NewLockFreePool f options)"
  by (auto simp add: NewLockFreePool_def validate_def config_ok_def
        POOL_SIZE_PER_CPU_def INIT_FULL_POOL_SIZE_def split: prod.splits)

lemma NewLockFreePool_caches [simp]:
  "emptyPool (NewLockFreePool f options) = []"
  "fullPool (NewLockFreePool f options) = []"
  "allocs (NewLockFreePool f options) = 0"
  "next_ptr (NewLockFreePool f options) = 0"
  "alloc (NewLockFreePool f options) = f"
  by (simp_all add: NewLockFreePool_def split: prod.splits)

lemma NewLockFreePool_pool_inv: "pool_inv (NewLockFreePool f options)"
  by (simp add: pool_inv_def NewLockFreePool_config_ok)

lemma NewLockFreePool_ptr_inv: "ptr_inv (NewLockFreePool f options)"
  by (simp add: ptr_inv_def)

lemma Get_resident_pool_inv:
  assumes inv: "pool_inv p" and ne: "fullPool p \<noteq> []"
  shows "\<exists>v p'. Get ch p = Inr (v, p') \<and> pool_inv p' \<and> allocs p' = allocs p \<and>
           held (fullPool p) = add_mset v (held (fullPool p')) \<and>
           held (emptyPool p') = held (emptyPool p)"
proof -
  from sync_get_nonempty [OF ne] obtain b rest
    where sg: "sync_get ch (fullPool p) = Some (b, rest)" by blast
  from sync_get_SomeD [OF sg] obtain ys zs
    where full: "fullPool p = ys @ b # zs" and rest: "rest = ys @ zs" by blast
  let ?k = "nat (poolSizePerCPU p)"
  from inv full have b: "ready_ok ?k b" and r: "list_all (ready_ok ?k) rest"
    by (simp_all add: pool_inv_def rest)
  from b have nonempty: "elems b \<noteq> []" by (auto simp: ready_ok_def)
  then have "mset (butlast (elems b) @ [last (elems b)]) = mset (elems b)" by simp
  then have split: "mset (elems b) = add_mset (last (elems b)) (mset (butlast (elems b)))"
    by simp
  have kpos: "0 < ?k" using inv by (simp add: pool_inv_def config_ok_def)
  have heldb: "held (fullPool p) =
      add_mset (last (elems b)) (held (b\<lparr>elems := butlast (elems b)\<rparr> # rest))"
    unfolding full rest held_def by (simp add: split)
  show ?thesis
  proof (cases "1 < length (elems b)")
    case True
    have "ready_ok ?k (b\<lparr>elems := butlast (elems b)\<rparr>)"
      using b True by (auto simp add: ready_ok_def)
    with inv r True heldb show ?thesis
      by (simp add: Get_resident [OF sg nonempty] pool_inv_def config_ok_def)
  next
    case False
    then have bl: "butlast (elems b) = []"
      using nonempty by (cases "elems b") auto
    have "growing_ok ?k (b\<lparr>elems := []\<rparr>)"
      using b kpos by (simp add: ready_ok_def growing_ok_def)
    with inv r False heldb bl show ?thesis
      by (simp add: Get_resident [OF sg nonempty] pool_inv_def config_ok_def held_def)
  qed
qed

lemma Get_fresh_pool_inv:
  assumes inv: "pool_inv p" and e: "fullPool p = []"
  shows "\<exists>v p'. Get ch p = Inr (v, p') \<and> pool_inv p' \<and>
           allocs p' = allocs p + nat (initFullPoolSize p)"
proof -
  from inv have c: "config_ok p" by (simp add: pool_inv_def)
  show ?thesis
    using inv c e
    by (auto simp add: Get_fresh [OF e c] pool_inv_def config_ok_def ready_ok_def growing_ok_def)
qed

lemma Get_pool_inv:
  "pool_inv p \<Longrightarrow> \<exists>v p'. Get ch p = Inr (v, p') \<and> pool_inv p'"
  using Get_fresh_pool_inv [of p ch] Get_resident_pool_inv [of p ch]
  by (cases "fullPool p = []") blast+

lemma Put_resident_pool_inv:
  assumes inv: "pool_inv p" and ne: "emptyPool p \<noteq> []"
  shows "\<exists>p'. Put grow ch x p = Inr p' \<and> pool_inv p' \<and> allocs p' = allocs p \<and>
           poolSizePerCPU p' = poolSizePerCPU p \<and>
           held (emptyPool p') + held (fullPool p') =
             add_mset x (held (emptyPool p) + held (fullPool p))"
proof -
  from sync_get_nonempty [OF ne] obtain b rest
    where sg: "sync_get ch (emptyPool p) = Some (b, rest)" by blast
  from sync_get_SomeD [OF sg] obtain ys zs
    where empty: "emptyPool p = ys @ b # zs" and rest: "rest = ys @ zs" by blast
  let ?k = "nat (poolSizePerCPU p)"
  let ?b = "b\<lparr>elems := elems b @ [x]\<rparr>"
  from inv empty have b: "growing_ok ?k b" and r: "list_all (growing_ok ?k) rest"
    by (simp_all add: pool_inv_def rest)
  from b have room: "length (elems b) < cap b" by (simp add: growing_ok_def)
  have app: "append_slice grow b x = ?b" by (rule append_slice_room [OF room])
  show ?thesis
  proof (cases "length (elems ?b) < cap ?b")
    case True
    then have "growing_ok ?k ?b" using b by (simp add: growing_ok_def)
    with inv r True show ?thesis
      by (simp add: Put_resident [OF sg] app pool_inv_def config_ok_def held_def empty rest)
  next
    case False
    then have "ready_ok ?k ?b" using b by (auto simp add: growing_ok_def ready_ok_def)
    with inv r False show ?thesis
      by (auto simp add: Put_resident [OF sg] app pool_inv_def config_ok_def held_def empty rest)
  qed
qed


lemma Put_fresh_pool_inv:
  assumes inv: "pool_inv p" and e: "emptyPool p = []"
  shows "\<exists>p'. Put grow ch x p = Inr p' \<and> pool_inv p' \<and> allocs p' = allocs p \<and>
           poolSizePerCPU p' = poolSizePerCPU p \<and>
           held (emptyPool p') + held (fullPool p') =
             add_mset x (held (emptyPool p) + held (fullPool p))"
proof -
  from inv have k: "0 < poolSizePerCPU p" by (simp add: pool_inv_def config_ok_def)
  show ?thesis
    using inv e
    by (auto simp add: Put_fresh [OF e k] pool_inv_def config_ok_def ready_ok_def
          growing_ok_def held_def)
qed

lemma Put_pool_inv:
  "pool_inv p \<Longrightarrow>
   \<exists>p'. Put grow ch x p = Inr p' \<and> pool_inv p' \<and> allocs p' = allocs p \<and>
        poolSizePerCPU p' = poolSizePerCPU p \<and>
        held (emptyPool p') + held (fullPool p') =
          add_mset x (held (emptyPool p) + held (fullPool p))"
  using Put_fresh_pool_inv [of p grow ch x] Put_resident_pool_inv [of p grow ch x]
  by (cases "emptyPool p = []") blast+

lemma reachable_pool_inv: "reachable grow p \<Longrightarrow> pool_inv p"
proof (induction rule: reachable.induct)
  case (reachable_New f options)
  show ?case by (rule NewLockFreePool_pool_inv)
next
  case (reachable_Get p ch v p')
  from Get_pool_inv [OF reachable_Get.IH, of ch] reachable_Get.hyps(2)
  show ?case by auto
next
  case (reachable_Put p ch x p')
  from Put_pool_inv [OF reachable_Put.IH, of grow ch x] reachable_Put.hyps(2)
  show ?case by auto
qed

subsection \<open>The example pool\<close>

lemma pool_4_2_eq:
  "pool_4_2 = \<lparr>emptyPool = [], fullPool = [], alloc = seq_factory, poolSizePerCPU = 4,
     initFullPoolSize = 2, allocs = 0, next_ptr = 0\<rparr>"
  by (simp add: pool_4_2_def NewLockFreePool_def validate_def
        POOL_SIZE_PER_CPU_def INIT_FULL_POOL_SIZE_def)

lemma pool_4_2_Get1:
  "Get c1 pool_4_2 =
     Inr (Some 2,
          \<lparr>emptyPool = [], fullPool = [\<lparr>ptr = 0, elems = [Some 1], cap = 4\<rparr>],
           alloc = seq_factory, poolSizePerCPU = 4, initFullPoolSize = 2,
           allocs = 2, next_ptr = 1\<rparr>)"
  by (simp add: pool_4_2_eq Get_fresh config_ok_def seq_factory_def)

lemma pool_4_2_Get2:
  "Get c2 \<lparr>emptyPool = [], fullPool = [\<lparr>ptr = 0, elems = [Some 1], cap = 4\<rparr>],
           alloc = seq_factory, poolSizePerCPU = 4, initFullPoolSize = 2,
           allocs = 2, next_ptr = 1\<rparr> =
     Inr (Some 1,
          \<lparr>emptyPool = [\<lparr>ptr = 0, elems = [], cap = 4\<rparr>], fullPool = [],
           alloc = seq_factory, poolSizePerCPU = 4, initFullPoolSize = 2,
           allocs = 2, next_ptr = 1\<rparr>)"
  by (subst Get_resident [where b = "\<lparr>ptr = 0, elems = [Some 1], cap = 4\<rparr>" and rest = "[]"])
     simp_all

lemma pool_4_2_Get3:
  "Get c3 \<lparr>emptyPool = [\<lparr>ptr = 0, elems = [], cap = 4\<rparr>], fullPool = [],
           alloc = seq_factory, poolSizePerCPU = 4, initFullPoolSize = 2,
           allocs = 2, next_ptr = 1\<rparr> =
     Inr (Some 4, pool_4_2_after)"
  by (simp add: Get_fresh config_ok_def seq_factory_def pool_4_2_after_def upt_rec)

lemma reachable_pool_4_2_after: "reachable grow pool_4_2_after"
proof -
  have "reachable grow pool_4_2"
    unfolding pool_4_2_def by (rule reachable_New)
  from reachable_Get [OF this pool_4_2_Get1 [of 0]]
       pool_4_2_Get2 [of 0] pool_4_2_Get3 [of 0]
  show ?thesis by (blast intro: reachable_Get)
qed

subsection \<open>Ownership of the batches\<close>

lemma Get_shapes:
  assumes inv: "pool_inv p" and g: "Get ch p = Inr (v, p')"
  shows "(\<exists>ys b zs. fullPool p = ys @ b # zs \<and> 1 < length (elems b) \<and> v = last (elems b) \<and>
            p' = p\<lparr>fullPool := b\<lparr>elems := butlast (elems b)\<rparr> # ys @ zs\<rparr>) \<or>
         (\<exists>ys b zs. fullPool p = ys @ b # zs \<and> elems b = [v] \<and>
            p' = p\<lparr>fullPool := ys @ zs, emptyPool := b\<lparr>elems := []\<rparr> # emptyPool p\<rparr>) \<or>
         (fullPool p = [] \<and> 1 < initFullPoolSize p \<and>
            p' = p\<lparr>fullPool := [\<lparr>ptr = next_ptr p,
                   elems = map (alloc p) [allocs p ..< allocs p + nat (initFullPoolSize p) - 1],
                   cap = nat (poolSizePerCPU p)\<rparr>],
                 allocs := allocs p + nat (initFullPoolSize p), next_ptr := Suc (next_ptr p)\<rparr>) \<or>
         (fullPool p = [] \<and> initFullPoolSize p = 1 \<and>
            p' = p\<lparr>emptyPool := \<lparr>ptr = next_ptr p, elems = [], cap = nat (poolSizePerCPU p)\<rparr>
                                 # emptyPool p,
                 allocs := allocs p + nat (initFullPoolSize p), next_ptr := Suc (next_ptr p)\<rparr>)"
proof (cases "fullPool p = []")
  case True
  from inv have c: "config_ok p" by (simp add: pool_inv_def)
  from g c True show ?thesis
    by (auto simp add: Get_fresh [OF True c] config_ok_def split: if_splits)
next
  case False
  from sync_get_nonempty [OF False] obtain b rest
    where sg: "sync_get ch (fullPool p) = Some (b, rest)" by blast
  from sync_get_SomeD [OF sg] obtain ys zs
    where full: "fullPool p = ys @ b # zs" and rest: "rest = ys @ zs" by blast
  from inv full have "ready_ok (nat (poolSizePerCPU p)) b" by (simp add: pool_inv_def)
  then have ne: "elems b \<noteq> []" by (auto simp add: ready_ok_def)
  show ?thesis
  proof (cases "1 < length (elems b)")
    case True
    with g have "v = last (elems b)"
      "p' = p\<lparr>fullPool := b\<lparr>elems := butlast (elems b)\<rparr> # ys @ zs\<rparr>"
      by (simp_all add: Get_resident [OF sg ne] rest)
    with full True have "\<exists>ys b zs. fullPool p = ys @ b # zs \<and> 1 < length (elems b) \<and>
        v = last (elems b) \<and> p' = p\<lparr>fullPool := b\<lparr>elems := butlast (elems b)\<rparr> # ys @ zs\<rparr>"
      by blast
    then show ?thesis by blast
  next
    case False
    with ne have one: "elems b = [last (elems b)]"
      by (cases "elems b") auto
    from g False have "v = last (elems b)"
      "p' = p\<lparr>fullPool := ys @ zs, emptyPool := b\<lparr>elems := []\<rparr> # emptyPool p\<rparr>"
      by (simp_all add: Get_resident [OF sg ne] rest)
    with full one have "\<exists>ys b zs. fullPool p = ys @ b # zs \<and> elems b = [v] \<and>
        p' = p\<lparr>fullPool := ys @ zs, emptyPool := b\<lparr>elems := []\<rparr> # emptyPool p\<rparr>"
      by metis
    then show ?thesis by blast
  qed
qed

lemma Put_shapes:
  assumes inv: "pool_inv p" and g: "Put grow ch x p = Inr p'"
  shows "(\<exists>ys b zs. emptyPool p = ys @ b # zs \<and> Suc (length (elems b)) < cap b \<and>
            p' = p\<lparr>emptyPool := b\<lparr>elems := elems b @ [x]\<rparr> # ys @ zs\<rparr>) \<or>
         (\<exists>ys b zs. emptyPool p = ys @ b # zs \<and> Suc (length (elems b)) = cap b \<and>
            p' = p\<lparr>emptyPool := ys @ zs,
                   fullPool := b\<lparr>elems := elems b @ [x]\<rparr> # fullPool p\<rparr>) \<or>
         (emptyPool p = [] \<and> 1 < poolSizePerCPU p \<and>
            p' = p\<lparr>next_ptr := Suc (next_ptr p),
                   emptyPool := [\<lparr>ptr = next_ptr p, elems = [x], cap = nat (poolSizePerCPU p)\<rparr>]\<rparr>) \<or>
         (emptyPool p = [] \<and> poolSizePerCPU p = 1 \<and>
            p' = p\<lparr>next_ptr := Suc (next_ptr p),
                   fullPool := \<lparr>ptr = next_ptr p, elems = [x], cap = nat (poolSizePerCPU p)\<rparr>
                               # fullPool p\<rparr>)"
proof (cases "emptyPool p = []")
  case True
  from inv have k: "0 < poolSizePerCPU p" by (simp add: pool_inv_def config_ok_def)
  from g k True show ?thesis
    by (auto simp add: Put_fresh [OF True k] split: if_splits)
next
  case False
  from sync_get_nonempty [OF False] obtain b rest
    where sg: "sync_get ch (emptyPool p) = Some (b, rest)" by blast
  from sync_get_SomeD [OF sg] obtain ys zs
    where empty: "emptyPool p = ys @ b # zs" and rest: "rest = ys @ zs" by blast
  from inv empty have "growing_ok (nat (poolSizePerCPU p)) b" by (simp add: pool_inv_def)
  then have room: "length (elems b) < cap b" by (simp add: growing_ok_def)
  have app: "append_slice grow b x = b\<lparr>elems := elems b @ [x]\<rparr>"
    by (rule append_slice_room [OF room])
  show ?thesis
  proof (cases "Suc (length (elems b)) < cap b")
    case True
    with g have "p' = p\<lparr>emptyPool := b\<lparr>elems := elems b @ [x]\<rparr> # ys @ zs\<rparr>"
      by (simp add: Put_resident [OF sg] app rest)
    with empty True have "\<exists>ys b zs. emptyPool p = ys @ b # zs \<and> Suc (length (elems b)) < cap b \<and>
        p' = p\<lparr>emptyPool := b\<lparr>elems := elems b @ [x]\<rparr> # ys @ zs\<rparr>"
      by blast
    then show ?thesis by blast
  next
    case False
    with room have eq: "Suc (length (elems b)) = cap b" by simp
    from g False have "p' = p\<lparr>emptyPool := ys @ zs,
                   fullPool := b\<lparr>elems := elems b @ [x]\<rparr> # fullPool p\<rparr>"
      by (simp add: Put_resident [OF sg] app rest)
    with empty eq have "\<exists>ys b zs. emptyPool p = ys @ b # zs \<and> Suc (length (elems b)) = cap b \<and>
        p' = p\<lparr>emptyPool := ys @ zs, fullPool := b\<lparr>elems := elems b @ [x]\<rparr> # fullPool p\<rparr>"
      by blast
    then show ?thesis by blast
  qed
qed

lemma Get_ptr_inv:
  assumes "pool_inv p" and "ptr_inv p" and "Get ch p = Inr (v, p')"
  shows "ptr_inv p'"
  using Get_shapes [OF assms(1,3)] assms(2)
  by (elim disjE exE conjE) (auto simp add: ptr_inv_def list_all_iff)

lemma Put_ptr_inv:
  assumes "pool_inv p" and "ptr_inv p" and "Put grow ch x p = Inr p'"
  shows "ptr_inv p'"
  using Put_shapes [OF assms(1,3)] assms(2)
  by (elim disjE exE conjE) (auto simp add: ptr_inv_def list_all_iff)

lemma reachable_ptr_inv: "reachable grow p \<Longrightarrow> ptr_inv p"
proof (induction rule: reachable.induct)
  case (reachable_New f options)
  show ?case by (rule NewLockFreePool_ptr_inv)
next
  case (reachable_Get p ch v p')
  then show ?case using Get_ptr_inv reachable_pool_inv by blast
next
  case (reachable_Put p ch x p')
  then show ?case using Put_ptr_inv reachable_pool_inv by blast
qed

lemma ptr_inv_sets:
  assumes "ptr_inv p"
  shows "ptr ` set (emptyPool p) \<inter> ptr ` set (fullPool p) = {}"
    and "next_ptr p \<notin> ptr ` set (emptyPool p)"
    and "next_ptr p \<notin> ptr ` set (fullPool p)"
proof -
  from assms show "ptr ` set (emptyPool p) \<inter> ptr ` set (fullPool p) = {}"
    by (simp add: ptr_inv_def)
  from assms have "\<forall>b \<in> set (emptyPool p) \<union> set (fullPool p). ptr b < next_ptr p"
    by (simp add: ptr_inv_def list_all_iff)
  then have "\<forall>b \<in> set (emptyPool p) \<union> set (fullPool p). ptr b \<noteq> next_ptr p"
    by (metis less_irrefl)
  then show "next_ptr p \<notin> ptr ` set (emptyPool p)" and "next_ptr p \<notin> ptr ` set (fullPool p)"
    by auto
qed

text \<open>Set reasoning shared by the cases below. \<open>A\<close> and \<open>B\<close> are the two caches before
  a call, \<open>A'\<close> and \<open>B'\<close> after it; every batch of \<open>B'\<close> was in \<open>B\<close> or is new
  there.\<close>

lemma cache_step:
  fixes A A' B B' :: "'a slice list"
  assumes "ptr ` set A \<inter> ptr ` set B = {}"
    and "\<forall>b'\<in>set B'. ptr b' \<in> ptr ` set B \<or> (Q b' \<and> (ptr b' \<in> ptr ` set A \<longrightarrow> P b'))"
    and "\<forall>b'\<in>set A'. ptr b' \<notin> ptr ` set B"
  shows "(\<forall>b'\<in>set B'. ptr b' \<in> ptr ` set A \<longrightarrow> P b') \<and>
         (\<forall>b'\<in>set B'. ptr b' \<notin> ptr ` set B \<longrightarrow> Q b') \<and>
         (\<forall>b'\<in>set A'. ptr b' \<notin> ptr ` set B)"
  using assms by (simp add: disjoint_iff) blast

lemma Put_moves:
  assumes inv: "pool_inv p" and own: "ptr_inv p" and put: "Put grow ch x p = Inr p'"
  shows "(\<forall>b' \<in> set (fullPool p'). ptr b' \<in> ptr ` set (emptyPool p) \<longrightarrow>
           length (elems b') = nat (poolSizePerCPU p) \<and> cap b' = nat (poolSizePerCPU p) \<and>
           (\<exists>b \<in> set (emptyPool p). ptr b = ptr b' \<and> elems b' = elems b @ [x])) \<and>
        (\<forall>b' \<in> set (fullPool p'). ptr b' \<notin> ptr ` set (fullPool p) \<longrightarrow>
           length (elems b') = nat (poolSizePerCPU p)) \<and>
        (\<forall>b' \<in> set (emptyPool p'). ptr b' \<notin> ptr ` set (fullPool p))"
proof (rule cache_step [OF ptr_inv_sets(1) [OF own]])
  note D = ptr_inv_sets [OF own]
  from Put_shapes [OF inv put]
  show "\<forall>b'\<in>set (emptyPool p'). ptr b' \<notin> ptr ` set (fullPool p)"
  proof (elim disjE exE conjE)
    fix ys b zs
    assume e: "emptyPool p = ys @ b # zs"
      and p': "p' = p\<lparr>emptyPool := b\<lparr>elems := elems b @ [x]\<rparr> # ys @ zs\<rparr>"
    have "ptr ` set (emptyPool p') = ptr ` set (emptyPool p)" by (simp add: p' e)
    with D(1) show ?thesis by blast
  next
    fix ys b zs
    assume e: "emptyPool p = ys @ b # zs"
      and p': "p' = p\<lparr>emptyPool := ys @ zs,
                     fullPool := b\<lparr>elems := elems b @ [x]\<rparr> # fullPool p\<rparr>"
    have "set (emptyPool p') \<subseteq> set (emptyPool p)" by (auto simp add: p' e)
    with D(1) show ?thesis by blast
  next
    assume p': "p' = p\<lparr>next_ptr := Suc (next_ptr p),
                     emptyPool := [\<lparr>ptr = next_ptr p, elems = [x], cap = nat (poolSizePerCPU p)\<rparr>]\<rparr>"
    show ?thesis using D(3) by (simp add: p')
  next
    assume e: "emptyPool p = []"
      and p': "p' = p\<lparr>next_ptr := Suc (next_ptr p),
                     fullPool := \<lparr>ptr = next_ptr p, elems = [x], cap = nat (poolSizePerCPU p)\<rparr>
                                 # fullPool p\<rparr>"
    show ?thesis by (simp add: p' e)
  qed
  from Put_shapes [OF inv put]
  show "\<forall>b'\<in>set (fullPool p').
          ptr b' \<in> ptr ` set (fullPool p) \<or>
          (length (elems b') = nat (poolSizePerCPU p) \<and>
           (ptr b' \<in> ptr ` set (emptyPool p) \<longrightarrow>
            length (elems b') = nat (poolSizePerCPU p) \<and> cap b' = nat (poolSizePerCPU p) \<and>
            (\<exists>b\<in>set (emptyPool p). ptr b = ptr b' \<and> elems b' = elems b @ [x])))"
  proof (elim disjE exE conjE)
    fix ys b zs
    assume p': "p' = p\<lparr>emptyPool := b\<lparr>elems := elems b @ [x]\<rparr> # ys @ zs\<rparr>"
    show ?thesis by (simp add: p')
  next
    fix ys b zs
    assume e: "emptyPool p = ys @ b # zs" and l: "Suc (length (elems b)) = cap b"
      and p': "p' = p\<lparr>emptyPool := ys @ zs,
                     fullPool := b\<lparr>elems := elems b @ [x]\<rparr> # fullPool p\<rparr>"
    from inv e have c: "cap b = nat (poolSizePerCPU p)"
      by (simp add: pool_inv_def growing_ok_def)
    have b: "b \<in> set (emptyPool p)" by (simp add: e)
    have "\<exists>b0\<in>set (emptyPool p). ptr b0 = ptr b \<and> elems b @ [x] = elems b0 @ [x]"
      using b by blast
    then show ?thesis using l c by (simp add: p')
  next
    assume p': "p' = p\<lparr>next_ptr := Suc (next_ptr p),
                     emptyPool := [\<lparr>ptr = next_ptr p, elems = [x], cap = nat (poolSizePerCPU p)\<rparr>]\<rparr>"
    show ?thesis by (simp add: p')
  next
    assume e: "emptyPool p = []" and k: "poolSizePerCPU p = 1"
      and p': "p' = p\<lparr>next_ptr := Suc (next_ptr p),
                     fullPool := \<lparr>ptr = next_ptr p, elems = [x], cap = nat (poolSizePerCPU p)\<rparr>
                                 # fullPool p\<rparr>"
    show ?thesis using k by (simp add: p' e)
  qed
qed

lemma Get_moves:
  assumes inv: "pool_inv p" and own: "ptr_inv p" and get: "Get ch p = Inr (v, p')"
  shows "(\<forall>b' \<in> set (emptyPool p'). ptr b' \<in> ptr ` set (fullPool p) \<longrightarrow>
           elems b' = [] \<and> (\<exists>b \<in> set (fullPool p). ptr b = ptr b' \<and> elems b = [v])) \<and>
        (\<forall>b' \<in> set (emptyPool p'). ptr b' \<notin> ptr ` set (emptyPool p) \<longrightarrow> elems b' = []) \<and>
        (\<forall>b' \<in> set (fullPool p'). ptr b' \<notin> ptr ` set (emptyPool p))"
proof (rule cache_step)
  note D = ptr_inv_sets [OF own]
  from D(1) show "ptr ` set (fullPool p) \<inter> ptr ` set (emptyPool p) = {}"
    by (simp add: Int_commute)
  from Get_shapes [OF inv get]
  show "\<forall>b'\<in>set (fullPool p'). ptr b' \<notin> ptr ` set (emptyPool p)"
  proof (elim disjE exE conjE)
    fix ys b zs
    assume e: "fullPool p = ys @ b # zs"
      and p': "p' = p\<lparr>fullPool := b\<lparr>elems := butlast (elems b)\<rparr> # ys @ zs\<rparr>"
    have "ptr ` set (fullPool p') = ptr ` set (fullPool p)" by (simp add: p' e)
    with D(1) show ?thesis by blast
  next
    fix ys b zs
    assume e: "fullPool p = ys @ b # zs"
      and p': "p' = p\<lparr>fullPool := ys @ zs, emptyPool := b\<lparr>elems := []\<rparr> # emptyPool p\<rparr>"
    have "set (fullPool p') \<subseteq> set (fullPool p)" by (auto simp add: p' e)
    with D(1) show ?thesis by blast
  next
    assume p': "p' = p\<lparr>fullPool := [\<lparr>ptr = next_ptr p,
                   elems = map (alloc p) [allocs p ..< allocs p + nat (initFullPoolSize p) - 1],
                   cap = nat (poolSizePerCPU p)\<rparr>],
                 allocs := allocs p + nat (initFullPoolSize p), next_ptr := Suc (next_ptr p)\<rparr>"
    show ?thesis using D(2) by (simp add: p')
  next
    assume e: "fullPool p = []"
      and p': "p' = p\<lparr>emptyPool := \<lparr>ptr = next_ptr p, elems = [], cap = nat (poolSizePerCPU p)\<rparr>
                                 # emptyPool p,
                 allocs := allocs p + nat (initFullPoolSize p), next_ptr := Suc (next_ptr p)\<rparr>"
    show ?thesis by (simp add: p' e)
  qed
  from Get_shapes [OF inv get]
  show "\<forall>b'\<in>set (emptyPool p').
          ptr b' \<in> ptr ` set (emptyPool p) \<or>
          (elems b' = [] \<and>
           (ptr b' \<in> ptr ` set (fullPool p) \<longrightarrow>
            elems b' = [] \<and> (\<exists>b\<in>set (fullPool p). ptr b = ptr b' \<and> elems b = [v])))"
  proof (elim disjE exE conjE)
    fix ys b zs
    assume p': "p' = p\<lparr>fullPool := b\<lparr>elems := butlast (elems b)\<rparr> # ys @ zs\<rparr>"
    show ?thesis by (simp add: p')
  next
    fix ys b zs
    assume e: "fullPool p = ys @ b # zs" and l: "elems b = [v]"
      and p': "p' = p\<lparr>fullPool := ys @ zs, emptyPool := b\<lparr>elems := []\<rparr> # emptyPool p\<rparr>"
    have "\<exists>b0\<in>set (fullPool p). ptr b0 = ptr b \<and> elems b0 = [v]"
      using l by (auto simp add: e)
    then show ?thesis by (simp add: p')
  next
    assume p': "p' = p\<lparr>fullPool := [\<lparr>ptr = next_ptr p,
                   elems = map (alloc p) [allocs p ..< allocs p + nat (initFullPoolSize p) - 1],
                   cap = nat (poolSizePerCPU p)\<rparr>],
                 allocs := allocs p + nat (initFullPoolSize p), next_ptr := Suc (next_ptr p)\<rparr>"
    show ?thesis by (simp add: p')
  next
    assume e: "fullPool p = []"
      and p': "p' = p\<lparr>emptyPool := \<lparr>ptr = next_ptr p, elems = [], cap = nat (poolSizePerCPU p)\<rparr>
                                 # emptyPool p,
                 allocs := allocs p + nat (initFullPoolSize p), next_ptr := Suc (next_ptr p)\<rparr>"
    show ?thesis by (simp add: p' e)
  qed
qed

subsection \<open>Runs of calls of Put followed by calls of Get\<close>

lemma run_append:
  "run grow (xs @ ys) p =
     (case run grow xs p of
        Inl e \<Rightarrow> Inl e
      | Inr (r1, p1) \<Rightarrow>
          (case run grow ys p1 of Inl e \<Rightarrow> Inl e | Inr (r2, p2) \<Rightarrow> Inr (r1 @ r2, p2)))"
  by (induction grow xs p rule: run.induct) (auto split: sum.splits)

lemma held_Nil [simp]: "held [] = {#}"
  by (simp add: held_def)

lemma Put_single:
  assumes inv: "pool_inv p" and one: "length (emptyPool p) \<le> 1"
  shows "\<exists>p'. Put grow ch x p = Inr p' \<and> pool_inv p' \<and> allocs p' = allocs p \<and>
           poolSizePerCPU p' = poolSizePerCPU p \<and> length (emptyPool p') \<le> 1 \<and>
           held (emptyPool p') + held (fullPool p') =
             add_mset x (held (emptyPool p) + held (fullPool p)) \<and>
           size (held (emptyPool p')) =
             Suc (size (held (emptyPool p))) mod nat (poolSizePerCPU p)"
proof -
  from Put_pool_inv [OF inv, of grow ch x] obtain p'
    where put: "Put grow ch x p = Inr p'" and inv': "pool_inv p'"
      and same: "allocs p' = allocs p" "poolSizePerCPU p' = poolSizePerCPU p"
      and h: "held (emptyPool p') + held (fullPool p') =
                add_mset x (held (emptyPool p) + held (fullPool p))"
    by blast
  have "length (emptyPool p') \<le> 1 \<and>
        size (held (emptyPool p')) = Suc (size (held (emptyPool p))) mod nat (poolSizePerCPU p)"
    using Put_shapes [OF inv put]
  proof (elim disjE exE conjE)
    fix ys b zs
    assume e: "emptyPool p = ys @ b # zs" and l: "Suc (length (elems b)) < cap b"
      and p': "p' = p\<lparr>emptyPool := b\<lparr>elems := elems b @ [x]\<rparr> # ys @ zs\<rparr>"
    from one e have n: "ys = []" "zs = []" by simp_all
    from inv e have c: "cap b = nat (poolSizePerCPU p)"
      by (simp add: pool_inv_def growing_ok_def)
    show ?thesis using l c by (simp add: p' e n held_def)
  next
    fix ys b zs
    assume e: "emptyPool p = ys @ b # zs" and l: "Suc (length (elems b)) = cap b"
      and p': "p' = p\<lparr>emptyPool := ys @ zs,
                     fullPool := b\<lparr>elems := elems b @ [x]\<rparr> # fullPool p\<rparr>"
    from one e have n: "ys = []" "zs = []" by simp_all
    from inv e have c: "cap b = nat (poolSizePerCPU p)"
      by (simp add: pool_inv_def growing_ok_def)
    show ?thesis using l c by (simp add: p' e n held_def)
  next
    assume e: "emptyPool p = []" and k: "1 < poolSizePerCPU p"
      and p': "p' = p\<lparr>next_ptr := Suc (next_ptr p),
                     emptyPool := [\<lparr>ptr = next_ptr p, elems = [x], cap = nat (poolSizePerCPU p)\<rparr>]\<rparr>"
    show ?thesis using k by (simp add: p' e held_def)
  next
    assume e: "emptyPool p = []" and k: "poolSizePerCPU p = 1"
      and p': "p' = p\<lparr>next_ptr := Suc (next_ptr p),
                     fullPool := \<lparr>ptr = next_ptr p, elems = [x], cap = nat (poolSizePerCPU p)\<rparr>
                                 # fullPool p\<rparr>"
    show ?thesis using k by (simp add: p' e)
  qed
  with put inv' same h show ?thesis by blast
qed

lemma Puts_run:
  assumes "length pcs = length vs" and "pool_inv p" and "length (emptyPool p) \<le> 1"
  shows "\<exists>p'. run grow (map2 OpPut pcs vs) p = Inr ([], p') \<and> pool_inv p' \<and>
           allocs p' = allocs p \<and> poolSizePerCPU p' = poolSizePerCPU p \<and>
           length (emptyPool p') \<le> 1 \<and>
           held (emptyPool p') + held (fullPool p') =
             mset vs + (held (emptyPool p) + held (fullPool p)) \<and>
           size (held (emptyPool p')) =
             (size (held (emptyPool p)) + length vs) mod nat (poolSizePerCPU p)"
  using assms
proof (induction pcs vs arbitrary: p rule: list_induct2)
  case Nil
  from Nil(1) have "growing_ok (nat (poolSizePerCPU p)) b" if "b \<in> set (emptyPool p)" for b
    using that by (simp add: pool_inv_def list_all_iff)
  then have "size (held (emptyPool p)) < nat (poolSizePerCPU p)"
    using Nil(1,2)
    by (cases "emptyPool p") (auto simp add: held_def growing_ok_def pool_inv_def config_ok_def)
  with Nil show ?case by simp
next
  case (Cons c pcs v vs)
  from Put_single [OF Cons.prems, of grow c v] obtain p1
    where put: "Put grow c v p = Inr p1" and inv1: "pool_inv p1"
      and same: "allocs p1 = allocs p" "poolSizePerCPU p1 = poolSizePerCPU p"
      and one1: "length (emptyPool p1) \<le> 1"
      and h1: "held (emptyPool p1) + held (fullPool p1) =
                add_mset v (held (emptyPool p) + held (fullPool p))"
      and s1: "size (held (emptyPool p1)) =
                Suc (size (held (emptyPool p))) mod nat (poolSizePerCPU p)"
    by blast
  from Cons.IH [OF inv1 one1] obtain p'
    where run': "run grow (map2 OpPut pcs vs) p1 = Inr ([], p')" and inv': "pool_inv p'"
      and same': "allocs p' = allocs p1" "poolSizePerCPU p' = poolSizePerCPU p1"
      and one': "length (emptyPool p') \<le> 1"
      and h': "held (emptyPool p') + held (fullPool p') =
                mset vs + (held (emptyPool p1) + held (fullPool p1))"
      and s': "size (held (emptyPool p')) =
                (size (held (emptyPool p1)) + length vs) mod nat (poolSizePerCPU p1)"
    by blast
  have "(Suc (size (held (emptyPool p))) mod nat (poolSizePerCPU p) + length vs)
          mod nat (poolSizePerCPU p) =
        (size (held (emptyPool p)) + length (v # vs)) mod nat (poolSizePerCPU p)"
    by (simp add: mod_add_left_eq)
  with s' s1 same have s: "size (held (emptyPool p')) =
        (size (held (emptyPool p)) + length (v # vs)) mod nat (poolSizePerCPU p)"
    by simp
  have r: "run grow (map2 OpPut (c # pcs) (v # vs)) p = Inr ([], p')"
    using put run' by simp
  from r inv' same same' one' h' h1 s show ?case by simp
qed

lemma Gets_run:
  assumes "pool_inv p" and "length gcs = size (held (fullPool p))"
  shows "\<exists>rs p'. run grow (map OpGet gcs) p = Inr (rs, p') \<and> pool_inv p' \<and>
           mset rs = held (fullPool p) \<and> held (fullPool p') = {#} \<and>
           allocs p' = allocs p"
  using assms
proof (induction gcs arbitrary: p)
  case Nil
  then show ?case by simp
next
  case (Cons c gcs)
  from Cons.prems(2) have "fullPool p \<noteq> []" by auto
  from Get_resident_pool_inv [OF Cons.prems(1) this, of c] obtain v p1
    where get: "Get c p = Inr (v, p1)" and inv1: "pool_inv p1"
      and same: "allocs p1 = allocs p"
      and h: "held (fullPool p) = add_mset v (held (fullPool p1))"
    by blast
  from Cons.prems(2) h have "length gcs = size (held (fullPool p1))" by simp
  from Cons.IH [OF inv1 this] obtain rs p'
    where run': "run grow (map OpGet gcs) p1 = Inr (rs, p')" and inv': "pool_inv p'"
      and m: "mset rs = held (fullPool p1)" and e: "held (fullPool p') = {#}"
      and same': "allocs p' = allocs p1"
    by blast
  have "run grow (map OpGet (c # gcs)) p = Inr (v # rs, p')"
    using get run' by simp
  with inv' m e same same' h show ?case by simp
qed

lemma run_returns:
  "pool_inv p \<Longrightarrow> \<exists>rs p'. run grow ops p = Inr (rs, p') \<and> pool_inv p'"
proof (induction ops arbitrary: p)
  case Nil
  then show ?case by simp
next
  case (Cons a ops)
  show ?case
  proof (cases a)
    case (OpGet ch)
    from Get_pool_inv [OF Cons.prems, of ch] obtain v p1
      where g: "Get ch p = Inr (v, p1)" and i: "pool_inv p1" by blast
    from Cons.IH [OF i] obtain rs p'
      where r: "run grow ops p1 = Inr (rs, p')" and i': "pool_inv p'" by blast
    show ?thesis using OpGet g r i' by simp
  next
    case (OpPut ch x)
    from Put_pool_inv [OF Cons.prems, of grow ch x] obtain p1
      where g: "Put grow ch x p = Inr p1" and i: "pool_inv p1" by blast
    from Cons.IH [OF i] obtain rs p'
      where r: "run grow ops p1 = Inr (rs, p')" and i': "pool_inv p'" by blast
    show ?thesis using OpPut g r i' by simp
  qed
qed

section \<open>The claims\<close>

text \<open>C1 as stated fails: on the pool with \<open>K = 4\<close>, \<open>N = 2\<close> and the factory of
  sequential integers, \<^verbatim>\<open>Put(7)\<close> followed by \<^verbatim>\<open>Get()\<close> returns the factory's 2 and
  not 7, after two factory calls; the 7 stays in a batch of the growing cache.\<close>

theorem Put_then_Get_counterexample:
  "run id [OpPut 0 (Some 7), OpGet 0] pool_4_2 =
     Inr ([Some 2],
          \<lparr>emptyPool = [\<lparr>ptr = 0, elems = [Some 7], cap = 4\<rparr>],
           fullPool = [\<lparr>ptr = 1, elems = [Some 1], cap = 4\<rparr>],
           alloc = seq_factory, poolSizePerCPU = 4, initFullPoolSize = 2,
           allocs = 2, next_ptr = 2\<rparr>) \<and>
   mset [Some (2::int)] \<noteq> mset [Some 7]"
proof -
  have put: "Put id 0 (Some 7) pool_4_2 =
      Inr \<lparr>emptyPool = [\<lparr>ptr = 0, elems = [Some 7], cap = 4\<rparr>], fullPool = [],
           alloc = seq_factory, poolSizePerCPU = 4, initFullPoolSize = 2,
           allocs = 0, next_ptr = 1\<rparr>"
    by (simp add: pool_4_2_eq Put_fresh)
  have get: "Get 0 \<lparr>emptyPool = [\<lparr>ptr = 0, elems = [Some 7], cap = 4\<rparr>], fullPool = [],
           alloc = seq_factory, poolSizePerCPU = 4, initFullPoolSize = 2,
           allocs = 0, next_ptr = 1\<rparr> =
      Inr (Some 2,
          \<lparr>emptyPool = [\<lparr>ptr = 0, elems = [Some 7], cap = 4\<rparr>],
           fullPool = [\<lparr>ptr = 1, elems = [Some 1], cap = 4\<rparr>],
           alloc = seq_factory, poolSizePerCPU = 4, initFullPoolSize = 2,
           allocs = 2, next_ptr = 2\<rparr>)"
    by (simp add: Get_fresh config_ok_def seq_factory_def)
  have "run id [OpPut 0 (Some 7), OpGet 0] pool_4_2 =
     Inr ([Some 2],
          \<lparr>emptyPool = [\<lparr>ptr = 0, elems = [Some 7], cap = 4\<rparr>],
           fullPool = [\<lparr>ptr = 1, elems = [Some 1], cap = 4\<rparr>],
           alloc = seq_factory, poolSizePerCPU = 4, initFullPoolSize = 2,
           allocs = 2, next_ptr = 2\<rparr>)"
    unfolding run.simps put get sum.case prod.case by (rule refl)
  then show ?thesis by simp
qed

text \<open>C1, amended. On a pool just constructed with batch capacity \<open>K\<close>, a sequence of
  \<open>n = m * K\<close> calls \<^verbatim>\<open>Put(v1)\<close> ... \<^verbatim>\<open>Put(vn)\<close> followed by \<open>n\<close> calls of \<^verbatim>\<open>Get\<close>
  runs to its end, returns exactly the multiset of \<open>v1, ..., vn\<close> and never calls the
  factory, whatever batches the caches hand out.\<close>

theorem Puts_then_Gets_return_the_values:
  assumes "length vs = m * nat (poolSizePerCPU (NewLockFreePool f options))"
    and "length pcs = length vs" and "length gcs = length vs"
  shows "\<exists>rs p'. run grow (map2 OpPut pcs vs @ map OpGet gcs) (NewLockFreePool f options) =
                   Inr (rs, p') \<and>
                 mset rs = mset vs \<and> allocs p' = 0"
proof -
  let ?p = "NewLockFreePool f options"
  have inv: "pool_inv ?p" by (rule NewLockFreePool_pool_inv)
  have one: "length (emptyPool ?p) \<le> 1" by simp
  from Puts_run [OF assms(2) inv one, of grow] obtain p1
    where puts: "run grow (map2 OpPut pcs vs) ?p = Inr ([], p1)" and inv1: "pool_inv p1"
      and a1: "allocs p1 = 0"
      and h1: "held (emptyPool p1) + held (fullPool p1) = mset vs"
      and s1: "size (held (emptyPool p1)) = length vs mod nat (poolSizePerCPU ?p)"
    by auto
  from s1 assms(1) have "held (emptyPool p1) = {#}" by simp
  with h1 have full: "held (fullPool p1) = mset vs" by simp
  then have "length gcs = size (held (fullPool p1))" using assms(3) by simp
  from Gets_run [OF inv1 this, of grow] obtain rs p'
    where gets: "run grow (map OpGet gcs) p1 = Inr (rs, p')"
      and m: "mset rs = held (fullPool p1)" and a: "allocs p' = allocs p1"
    by blast
  have "run grow (map2 OpPut pcs vs @ map OpGet gcs) ?p = Inr (rs, p')"
    by (simp add: run_append puts gets)
  with m full a a1 show ?thesis by simp
qed

theorem Puts_then_Gets_return_the_values_witness:
  "length [Some (5::int), Some 6] =
     1 * nat (poolSizePerCPU
               (NewLockFreePool seq_factory [OptionPoolSizePerCPU 2, OptionInitFullPoolSize 1])) \<and>
   (\<exists>rs p'. run id [OpPut 0 (Some 5), OpPut 0 (Some 6), OpGet 0, OpGet 0]
               (NewLockFreePool seq_factory [OptionPoolSizePerCPU 2, OptionInitFullPoolSize 1]) =
             Inr (rs, p') \<and>
           mset rs = mset [Some 5, Some 6] \<and> allocs p' = 0)"
proof -
  have k: "poolSizePerCPU
      (NewLockFreePool seq_factory [OptionPoolSizePerCPU 2, OptionInitFullPoolSize 1]) = 2"
    by (simp add: NewLockFreePool_def validate_def)
  have l: "length [Some (5::int), Some 6] =
     1 * nat (poolSizePerCPU
               (NewLockFreePool seq_factory [OptionPoolSizePerCPU 2, OptionInitFullPoolSize 1]))"
    by (simp add: k)
  have ops: "map2 OpPut [0, 0] [Some (5::int), Some 6] @ map OpGet [0, 0] =
     [OpPut 0 (Some 5), OpPut 0 (Some 6), OpGet 0, OpGet 0]"
    by simp
  show ?thesis
    using Puts_then_Gets_return_the_values [OF l, of "[0, 0]" "[0, 0]" id] l
    unfolding ops by simp
qed

text \<open>C2. In every reachable state each batch of the growing cache has fewer than \<open>K\<close>
  values and each batch of the ready cache has between 1 and \<open>K\<close> values, \<open>K\<close> being the
  batch capacity; \<^verbatim>\<open>Get\<close> and \<^verbatim>\<open>Put\<close> return and keep this invariant, and with a
  validated configuration \<^verbatim>\<open>newEmptySlice\<close> makes a batch fit for the growing cache and
  \<^verbatim>\<open>newFullSlice\<close> one fit for the ready cache.\<close>

theorem batch_sizes_invariant:
  "(reachable grow p \<longrightarrow>
      (\<forall>b \<in> set (emptyPool p). cap b = nat (poolSizePerCPU p) \<and> length (elems b) < cap b) \<and>
      (\<forall>b \<in> set (fullPool p). cap b = nat (poolSizePerCPU p) \<and>
          1 \<le> length (elems b) \<and> length (elems b) \<le> cap b)) \<and>
   (reachable grow p \<longrightarrow> pool_inv p) \<and>
   (pool_inv p \<longrightarrow> (\<exists>v p'. Get ch p = Inr (v, p') \<and> pool_inv p')) \<and>
   (pool_inv p \<longrightarrow> (\<exists>p'. Put grow ch x p = Inr p' \<and> pool_inv p')) \<and>
   (config_ok p \<longrightarrow>
      (\<exists>b p'. newEmptySlice p = Inr (b, p') \<and> growing_ok (nat (poolSizePerCPU p)) b) \<and>
      (\<exists>b p'. newFullSlice p = Inr (b, p') \<and> ready_ok (nat (poolSizePerCPU p)) b \<and>
         length (elems b) = nat (initFullPoolSize p)))"
proof -
  have sizes: "reachable grow p \<Longrightarrow>
      (\<forall>b \<in> set (emptyPool p). cap b = nat (poolSizePerCPU p) \<and> length (elems b) < cap b) \<and>
      (\<forall>b \<in> set (fullPool p). cap b = nat (poolSizePerCPU p) \<and>
          1 \<le> length (elems b) \<and> length (elems b) \<le> cap b)"
    using reachable_pool_inv [of grow p]
    by (auto simp add: pool_inv_def list_all_iff growing_ok_def ready_ok_def)
  have mk: "config_ok p \<Longrightarrow>
      (\<exists>b p'. newEmptySlice p = Inr (b, p') \<and> growing_ok (nat (poolSizePerCPU p)) b) \<and>
      (\<exists>b p'. newFullSlice p = Inr (b, p') \<and> ready_ok (nat (poolSizePerCPU p)) b \<and>
         length (elems b) = nat (initFullPoolSize p))"
    by (auto simp add: newEmptySlice_closed newFullSlice_closed config_ok_def
          growing_ok_def ready_ok_def)
  show ?thesis
    using sizes mk reachable_pool_inv [of grow p] Get_pool_inv [of p ch]
      Put_pool_inv [of p grow ch x]
    by blast
qed

lemma pool_4_2_after_inv: "pool_inv pool_4_2_after"
  by (simp add: pool_inv_def pool_4_2_after_def config_ok_def growing_ok_def ready_ok_def)

theorem batch_sizes_invariant_witness:
  "reachable id pool_4_2_after \<and> pool_inv pool_4_2_after \<and> config_ok pool_4_2_after \<and>
   emptyPool pool_4_2_after = [\<lparr>ptr = 0, elems = [], cap = 4\<rparr>] \<and>
   fullPool pool_4_2_after = [\<lparr>ptr = 1, elems = [Some 3], cap = 4\<rparr>] \<and>
   list_all (\<lambda>b. cap b = 4 \<and> length (elems b) < cap b) (emptyPool pool_4_2_after) \<and>
   list_all (\<lambda>b. cap b = 4 \<and> 1 \<le> length (elems b) \<and> length (elems b) \<le> cap b)
     (fullPool pool_4_2_after) \<and>
   (\<exists>v p'. Get 0 pool_4_2_after = Inr (v, p') \<and> pool_inv p') \<and>
   (\<exists>p'. Put id 0 (Some 9) pool_4_2_after = Inr p' \<and> pool_inv p') \<and>
   (\<exists>b p'. newEmptySlice pool_4_2_after = Inr (b, p') \<and> growing_ok 4 b) \<and>
   (\<exists>b p'. newFullSlice pool_4_2_after = Inr (b, p') \<and> ready_ok 4 b \<and> length (elems b) = 2)"
proof -
  have r: "reachable id pool_4_2_after" by (rule reachable_pool_4_2_after)
  have i: "pool_inv pool_4_2_after" by (rule pool_4_2_after_inv)
  have c: "config_ok pool_4_2_after" using i by (simp add: pool_inv_def)
  have k: "nat (poolSizePerCPU pool_4_2_after) = 4" "nat (initFullPoolSize pool_4_2_after) = 2"
    by (simp_all add: pool_4_2_after_def)
  have e: "emptyPool pool_4_2_after = [\<lparr>ptr = 0, elems = [], cap = 4\<rparr>]"
          "fullPool pool_4_2_after = [\<lparr>ptr = 1, elems = [Some 3], cap = 4\<rparr>]"
    by (simp_all add: pool_4_2_after_def)
  show ?thesis
    using batch_sizes_invariant [of id pool_4_2_after 0 "Some 9"] r i c
    unfolding k e list_all_iff by simp
qed

text \<open>C3. \<^verbatim>\<open>Get\<close> fetches a batch \<open>b\<close> from the ready cache (a resident one, which
  leaves the cache, or a new one) and returns the last value of \<open>b\<close>; the batch without
  that value goes back to the ready cache when \<open>b\<close> held more than one value, and to the
  growing cache when it held exactly one.\<close>

theorem Get_pops_and_moves_batch:
  assumes "fullPool_Get ch p = Inr (b, p1)" and "elems b \<noteq> []"
  shows "Get ch p =
           Inr (last (elems b),
                if 1 < length (elems b)
                then p1\<lparr>fullPool := b\<lparr>elems := butlast (elems b)\<rparr> # fullPool p1\<rparr>
                else p1\<lparr>emptyPool := b\<lparr>elems := []\<rparr> # emptyPool p1\<rparr>) \<and>
         (fullPool p \<noteq> [] \<longrightarrow>
            mset (fullPool p) = add_mset b (mset (fullPool p1)) \<and>
            emptyPool p1 = emptyPool p \<and> allocs p1 = allocs p) \<and>
         (fullPool p = [] \<longrightarrow> newFullSlice p = Inr (b, p1))"
proof -
  have l: "elems b ! (length (elems b) - Suc 0) = last (elems b)"
    using assms(2) by (simp add: last_conv_nth)
  have t: "take (length (elems b) - Suc 0) (elems b) = butlast (elems b)"
    by (simp add: butlast_conv_take)
  have e: "\<not> Suc 0 < length (elems b) \<Longrightarrow> butlast (elems b) = []"
    using assms(2) by (cases "elems b") auto
  have g: "Get ch p =
           Inr (last (elems b),
                if 1 < length (elems b)
                then p1\<lparr>fullPool := b\<lparr>elems := butlast (elems b)\<rparr> # fullPool p1\<rparr>
                else p1\<lparr>emptyPool := b\<lparr>elems := []\<rparr> # emptyPool p1\<rparr>)"
    using assms l e by (auto simp add: Get_def Let_def t sync_put_def)
  have r: "mset (fullPool p) = add_mset b (mset (fullPool p1)) \<and>
            emptyPool p1 = emptyPool p \<and> allocs p1 = allocs p" if ne: "fullPool p \<noteq> []"
  proof -
    from sync_get_nonempty [OF ne] obtain b' rest
      where sg: "sync_get ch (fullPool p) = Some (b', rest)" by blast
    with assms(1) have eq: "b' = b" "p1 = p\<lparr>fullPool := rest\<rparr>"
      by (simp_all add: fullPool_Get_def)
    from sync_get_SomeD [OF sg] eq show ?thesis by auto
  qed
  have n: "newFullSlice p = Inr (b, p1)" if "fullPool p = []"
    using assms(1) that by (simp add: fullPool_Get_def)
  show ?thesis using g r n by blast
qed

theorem Get_pops_and_moves_batch_witness:
  "fullPool_Get 0 pool_4_2_after =
     Inr (\<lparr>ptr = 1, elems = [Some 3], cap = 4\<rparr>, pool_4_2_after\<lparr>fullPool := []\<rparr>) \<and>
   Get 0 pool_4_2_after =
     Inr (Some 3,
          pool_4_2_after\<lparr>fullPool := [],
            emptyPool := [\<lparr>ptr = 1, elems = [], cap = 4\<rparr>, \<lparr>ptr = 0, elems = [], cap = 4\<rparr>]\<rparr>) \<and>
   fullPool_Get 0 (pool_4_2_after\<lparr>fullPool := [\<lparr>ptr = 1, elems = [Some 3, Some 4], cap = 4\<rparr>]\<rparr>) =
     Inr (\<lparr>ptr = 1, elems = [Some 3, Some 4], cap = 4\<rparr>, pool_4_2_after\<lparr>fullPool := []\<rparr>) \<and>
   Get 0 (pool_4_2_after\<lparr>fullPool := [\<lparr>ptr = 1, elems = [Some 3, Some 4], cap = 4\<rparr>]\<rparr>) =
     Inr (Some 4, pool_4_2_after)"
proof -
  have f: "fullPool_Get 0 pool_4_2_after =
     Inr (\<lparr>ptr = 1, elems = [Some 3], cap = 4\<rparr>, pool_4_2_after\<lparr>fullPool := []\<rparr>)"
    by (simp add: fullPool_Get_def pool_4_2_after_def)
  have g: "fullPool_Get 0 (pool_4_2_after\<lparr>fullPool := [\<lparr>ptr = 1, elems = [Some 3, Some 4], cap = 4\<rparr>]\<rparr>) =
     Inr (\<lparr>ptr = 1, elems = [Some 3, Some 4], cap = 4\<rparr>, pool_4_2_after\<lparr>fullPool := []\<rparr>)"
    by (simp add: fullPool_Get_def pool_4_2_after_def)
  show ?thesis
    using Get_pops_and_moves_batch [OF f] Get_pops_and_moves_batch [OF g] f g
    by (simp add: pool_4_2_after_def)
qed

text \<open>C4. \<^verbatim>\<open>Put(x)\<close> fetches a batch \<open>b\<close> from the growing cache (a resident one, which
  leaves the cache, or a new one) and appends \<open>x\<close> to it; the batch goes back to the
  growing cache when its new length is below its capacity, and to the ready cache
  otherwise, and then its new length equals its capacity.\<close>

theorem Put_appends_and_moves_batch:
  assumes "emptyPool_Get ch p = Inr (b, p1)" and "length (elems b) \<le> cap b"
  shows "elems (append_slice grow b x) = elems b @ [x] \<and>
         Put grow ch x p =
           Inr (if length (elems (append_slice grow b x)) < cap (append_slice grow b x)
                then p1\<lparr>emptyPool := append_slice grow b x # emptyPool p1\<rparr>
                else p1\<lparr>fullPool := append_slice grow b x # fullPool p1\<rparr>) \<and>
         (\<not> length (elems (append_slice grow b x)) < cap (append_slice grow b x) \<longrightarrow>
            length (elems (append_slice grow b x)) = cap (append_slice grow b x)) \<and>
         (emptyPool p \<noteq> [] \<longrightarrow>
            mset (emptyPool p) = add_mset b (mset (emptyPool p1)) \<and> fullPool p1 = fullPool p) \<and>
         (emptyPool p = [] \<longrightarrow> newEmptySlice p = Inr (b, p1))"
proof -
  have g: "Put grow ch x p =
           Inr (if length (elems (append_slice grow b x)) < cap (append_slice grow b x)
                then p1\<lparr>emptyPool := append_slice grow b x # emptyPool p1\<rparr>
                else p1\<lparr>fullPool := append_slice grow b x # fullPool p1\<rparr>)"
    using assms(1) by (simp add: Put_def Let_def sync_put_def)
  have f: "length (elems (append_slice grow b x)) = cap (append_slice grow b x)"
    if "\<not> length (elems (append_slice grow b x)) < cap (append_slice grow b x)"
    using append_slice_fits [OF assms(2), of grow x] that by simp
  have r: "mset (emptyPool p) = add_mset b (mset (emptyPool p1)) \<and> fullPool p1 = fullPool p"
    if ne: "emptyPool p \<noteq> []"
  proof -
    from sync_get_nonempty [OF ne] obtain b' rest
      where sg: "sync_get ch (emptyPool p) = Some (b', rest)" by blast
    with assms(1) have eq: "b' = b" "p1 = p\<lparr>emptyPool := rest\<rparr>"
      by (simp_all add: emptyPool_Get_def)
    from sync_get_SomeD [OF sg] eq show ?thesis by auto
  qed
  have n: "newEmptySlice p = Inr (b, p1)" if "emptyPool p = []"
    using assms(1) that by (simp add: emptyPool_Get_def)
  show ?thesis using g f r n by simp
qed

theorem Put_appends_and_moves_batch_witness:
  "emptyPool_Get 0 pool_4_2_after =
     Inr (\<lparr>ptr = 0, elems = [], cap = 4\<rparr>, pool_4_2_after\<lparr>emptyPool := []\<rparr>) \<and>
   Put id 0 (Some 9) pool_4_2_after =
     Inr (pool_4_2_after\<lparr>emptyPool := [\<lparr>ptr = 0, elems = [Some 9], cap = 4\<rparr>]\<rparr>) \<and>
   emptyPool_Get 0 (pool_4_2_after\<lparr>emptyPool := [\<lparr>ptr = 0, elems = [Some 6, Some 7, Some 8], cap = 4\<rparr>]\<rparr>) =
     Inr (\<lparr>ptr = 0, elems = [Some 6, Some 7, Some 8], cap = 4\<rparr>, pool_4_2_after\<lparr>emptyPool := []\<rparr>) \<and>
   Put id 0 (Some 9) (pool_4_2_after\<lparr>emptyPool := [\<lparr>ptr = 0, elems = [Some 6, Some 7, Some 8], cap = 4\<rparr>]\<rparr>) =
     Inr (pool_4_2_after\<lparr>emptyPool := [],
            fullPool := [\<lparr>ptr = 0, elems = [Some 6, Some 7, Some 8, Some 9], cap = 4\<rparr>,
                         \<lparr>ptr = 1, elems = [Some 3], cap = 4\<rparr>]\<rparr>)"
proof -
  have f: "emptyPool_Get 0 pool_4_2_after =
     Inr (\<lparr>ptr = 0, elems = [], cap = 4\<rparr>, pool_4_2_after\<lparr>emptyPool := []\<rparr>)"
    by (simp add: emptyPool_Get_def pool_4_2_after_def)
  have g: "emptyPool_Get 0 (pool_4_2_after\<lparr>emptyPool := [\<lparr>ptr = 0, elems = [Some 6, Some 7, Some 8], cap = 4\<rparr>]\<rparr>) =
     Inr (\<lparr>ptr = 0, elems = [Some 6, Some 7, Some 8], cap = 4\<rparr>, pool_4_2_after\<lparr>emptyPool := []\<rparr>)"
    by (simp add: emptyPool_Get_def pool_4_2_after_def)
  show ?thesis
    using Put_appends_and_moves_batch [OF f, of id "Some 9"]
          Put_appends_and_moves_batch [OF g, of id "Some 9"] f g
    by (simp add: pool_4_2_after_def append_slice_def)
qed

text \<open>C5. The first \<^verbatim>\<open>Get\<close> on a pool just constructed calls the factory exactly \<open>N\<close>
  times, \<open>N\<close> being the pool's initial fill: \<^verbatim>\<open>newFullSlice\<close> makes a batch of length
  \<open>N\<close> whose slot \<open>i\<close> holds the result of factory call \<open>i\<close>, and \<^verbatim>\<open>Get\<close>
  returns the last of them.\<close>

theorem first_Get_calls_factory_N_times:
  "(\<exists>b p1 p'.
     newFullSlice (NewLockFreePool f options) = Inr (b, p1) \<and>
     elems b = map f [0 ..< nat (initFullPoolSize (NewLockFreePool f options))] \<and>
     length (elems b) = nat (initFullPoolSize (NewLockFreePool f options)) \<and>
     allocs p1 = nat (initFullPoolSize (NewLockFreePool f options)) \<and>
     Get ch (NewLockFreePool f options) =
       Inr (f (nat (initFullPoolSize (NewLockFreePool f options)) - 1), p') \<and>
     allocs (NewLockFreePool f options) = 0 \<and>
     allocs p' = nat (initFullPoolSize (NewLockFreePool f options)) \<and>
     0 < initFullPoolSize (NewLockFreePool f options)) \<and>
     (apply_options options (POOL_SIZE_PER_CPU, INIT_FULL_POOL_SIZE) = (k, n) \<and>
      0 < n \<and> n \<le> k \<longrightarrow>
        initFullPoolSize (NewLockFreePool f options) = n \<and>
        poolSizePerCPU (NewLockFreePool f options) = k)"
proof -
  let ?p = "NewLockFreePool f options"
  have c: "config_ok ?p" by (rule NewLockFreePool_config_ok)
  have e: "fullPool ?p = []" by simp
  have v: "initFullPoolSize ?p = n \<and> poolSizePerCPU ?p = k"
    if "apply_options options (POOL_SIZE_PER_CPU, INIT_FULL_POOL_SIZE) = (k, n)"
      and "0 < n" and "n \<le> k"
    using that by (simp add: NewLockFreePool_def validate_def)
  show ?thesis
    using c v by (simp add: newFullSlice_closed [OF c] Get_fresh [OF e c] config_ok_def)
qed

theorem first_Get_calls_factory_N_times_witness:
  "apply_options [OptionPoolSizePerCPU 4, OptionInitFullPoolSize 2]
     (POOL_SIZE_PER_CPU, INIT_FULL_POOL_SIZE) = (4, 2) \<and>
   (\<exists>b p1 p'.
      newFullSlice pool_4_2 = Inr (b, p1) \<and> elems b = [Some 1, Some 2] \<and> allocs p1 = 2 \<and>
      Get 0 pool_4_2 = Inr (Some 2, p') \<and> allocs pool_4_2 = 0 \<and> allocs p' = 2)"
proof -
  have a: "apply_options [OptionPoolSizePerCPU 4, OptionInitFullPoolSize 2]
     (POOL_SIZE_PER_CPU, INIT_FULL_POOL_SIZE) = (4, 2)"
    by simp
  have i: "initFullPoolSize pool_4_2 = 2 \<and> poolSizePerCPU pool_4_2 = 4"
    using first_Get_calls_factory_N_times
      [of seq_factory "[OptionPoolSizePerCPU 4, OptionInitFullPoolSize 2]" 0 4 2] a
    unfolding pool_4_2_def by simp
  have u: "map seq_factory [0..<2] = [Some 1, Some 2]"
    by (simp add: seq_factory_def upt_rec)
  show ?thesis
    using first_Get_calls_factory_N_times
      [of seq_factory "[OptionPoolSizePerCPU 4, OptionInitFullPoolSize 2]" 0 4 2] a i u
    unfolding pool_4_2_def [symmetric] by (auto simp add: seq_factory_def)
qed

text \<open>C6. Construction always returns a pool, with the supplied sizes \<open>k\<close> and \<open>n\<close>
  (the result of the options) when \<open>0 < n \<le> k\<close> and with the defaults 256 and 256
  otherwise; in the latter case the pool is the one built with no options at all, so every
  run of calls on it gives the same results. This holds for \<open>K = 10\<close>, \<open>N = 20\<close>.\<close>

theorem invalid_configuration_resets_to_defaults:
  assumes "apply_options options (POOL_SIZE_PER_CPU, INIT_FULL_POOL_SIZE) = (k, n)"
  shows "NewLockFreePool f options =
           \<lparr>emptyPool = [], fullPool = [], alloc = f,
            poolSizePerCPU = (if 0 < n \<and> n \<le> k then k else 256),
            initFullPoolSize = (if 0 < n \<and> n \<le> k then n else 256),
            allocs = 0, next_ptr = 0\<rparr> \<and>
         (\<not> (0 < n \<and> n \<le> k) \<longrightarrow>
            NewLockFreePool f options = NewLockFreePool f [] \<and>
            poolSizePerCPU (NewLockFreePool f options) = 256 \<and>
            initFullPoolSize (NewLockFreePool f options) = 256 \<and>
            run grow ops (NewLockFreePool f options) = run grow ops (NewLockFreePool f []))"
  using assms
  by (auto simp add: NewLockFreePool_def validate_def POOL_SIZE_PER_CPU_def
        INIT_FULL_POOL_SIZE_def)

theorem invalid_configuration_resets_to_defaults_witness:
  "apply_options [OptionPoolSizePerCPU 10, OptionInitFullPoolSize 20]
     (POOL_SIZE_PER_CPU, INIT_FULL_POOL_SIZE) = (10, 20) \<and>
   \<not> (0 < (20::int) \<and> (20::int) \<le> 10) \<and>
   NewLockFreePool seq_factory [OptionPoolSizePerCPU 10, OptionInitFullPoolSize 20] =
     NewLockFreePool seq_factory [] \<and>
   poolSizePerCPU
     (NewLockFreePool seq_factory [OptionPoolSizePerCPU 10, OptionInitFullPoolSize 20]) = 256 \<and>
   initFullPoolSize
     (NewLockFreePool seq_factory [OptionPoolSizePerCPU 10, OptionInitFullPoolSize 20]) = 256 \<and>
   run id [OpPut 0 (Some 5), OpGet 0]
       (NewLockFreePool seq_factory [OptionPoolSizePerCPU 10, OptionInitFullPoolSize 20]) =
     run id [OpPut 0 (Some 5), OpGet 0] (NewLockFreePool seq_factory [])"
proof -
  have a: "apply_options [OptionPoolSizePerCPU 10, OptionInitFullPoolSize 20]
     (POOL_SIZE_PER_CPU, INIT_FULL_POOL_SIZE) = (10, 20)"
    by simp
  have n: "\<not> (0 < (20::int) \<and> (20::int) \<le> 10)" by simp
  show ?thesis
    using invalid_configuration_resets_to_defaults
      [OF a, of seq_factory id "[OpPut 0 (Some 5), OpGet 0]"] a n
    by blast
qed

text \<open>C7. The example of the specification: with \<open>K = 4\<close>, \<open>N = 2\<close> and the factory of
  sequential integers, whatever the caches choose, the first \<^verbatim>\<open>Get\<close> fills a ready
  batch with \<open>[1, 2]\<close>, returns 2 and leaves \<open>[1]\<close> in the ready cache; the second
  returns 1 and moves the emptied batch to the growing cache; the third makes a new ready
  batch \<open>[3, 4]\<close> (four factory calls in all) and returns 4.\<close>

theorem example_three_Gets:
  "\<exists>p1 p2 p3.
     newFullSlice pool_4_2 =
       Inr (\<lparr>ptr = 0, elems = [Some 1, Some 2], cap = 4\<rparr>, pool_4_2\<lparr>allocs := 2, next_ptr := 1\<rparr>) \<and>
     Get c1 pool_4_2 = Inr (Some 2, p1) \<and>
     fullPool p1 = [\<lparr>ptr = 0, elems = [Some 1], cap = 4\<rparr>] \<and> emptyPool p1 = [] \<and>
     Get c2 p1 = Inr (Some 1, p2) \<and>
     fullPool p2 = [] \<and> emptyPool p2 = [\<lparr>ptr = 0, elems = [], cap = 4\<rparr>] \<and>
     newFullSlice p2 =
       Inr (\<lparr>ptr = 1, elems = [Some 3, Some 4], cap = 4\<rparr>, p2\<lparr>allocs := 4, next_ptr := 2\<rparr>) \<and>
     Get c3 p2 = Inr (Some 4, p3) \<and>
     fullPool p3 = [\<lparr>ptr = 1, elems = [Some 3], cap = 4\<rparr>] \<and>
     emptyPool p3 = [\<lparr>ptr = 0, elems = [], cap = 4\<rparr>] \<and> allocs p3 = 4"
proof -
  have n1: "newFullSlice pool_4_2 =
       Inr (\<lparr>ptr = 0, elems = [Some 1, Some 2], cap = 4\<rparr>, pool_4_2\<lparr>allocs := 2, next_ptr := 1\<rparr>)"
    by (simp add: pool_4_2_eq newFullSlice_closed config_ok_def seq_factory_def upt_rec)
  have n2: "newFullSlice \<lparr>emptyPool = [\<lparr>ptr = 0, elems = [], cap = 4\<rparr>], fullPool = [],
           alloc = seq_factory, poolSizePerCPU = 4, initFullPoolSize = 2,
           allocs = 2, next_ptr = 1\<rparr> =
       Inr (\<lparr>ptr = 1, elems = [Some 3, Some 4], cap = 4\<rparr>,
            \<lparr>emptyPool = [\<lparr>ptr = 0, elems = [], cap = 4\<rparr>], fullPool = [],
           alloc = seq_factory, poolSizePerCPU = 4, initFullPoolSize = 2,
           allocs = 4, next_ptr = 2\<rparr>)"
    by (simp add: newFullSlice_closed config_ok_def seq_factory_def upt_rec)
  show ?thesis
    using n1 n2 pool_4_2_Get1 [of c1] pool_4_2_Get2 [of c2] pool_4_2_Get3 [of c3]
    by (simp add: pool_4_2_after_def)
qed

lemma pool_1_1_Get:
  "Get c (NewLockFreePool seq_factory [OptionPoolSizePerCPU 1, OptionInitFullPoolSize 1]) =
     Inr (Some 1, pool_1_1_drained)"
proof -
  have e: "NewLockFreePool seq_factory [OptionPoolSizePerCPU 1, OptionInitFullPoolSize 1] =
     \<lparr>emptyPool = [], fullPool = [], alloc = seq_factory, poolSizePerCPU = 1,
      initFullPoolSize = 1, allocs = 0, next_ptr = 0\<rparr>"
    by (simp add: NewLockFreePool_def validate_def)
  show ?thesis
    unfolding e by (simp add: Get_fresh config_ok_def seq_factory_def pool_1_1_drained_def)
qed

lemma pool_1_1_Put: "Put grow c (Some 9) pool_1_1_drained = Inr pool_1_1_refilled"
  by (subst Put_resident [where b = "\<lparr>ptr = 0, elems = [], cap = 1\<rparr>" and rest = "[]"])
     (simp_all add: pool_1_1_drained_def pool_1_1_refilled_def append_slice_def)

lemma pool_1_1_Get2: "Get c pool_1_1_refilled = Inr (Some 9, pool_1_1_drained)"
  by (subst Get_resident [where b = "\<lparr>ptr = 0, elems = [Some 9], cap = 1\<rparr>" and rest = "[]"])
     (simp_all add: pool_1_1_drained_def pool_1_1_refilled_def)

lemma reachable_pool_1_1_drained: "reachable grow pool_1_1_drained"
  using reachable_Get [OF reachable_New pool_1_1_Get [of 0]] .

lemma reachable_pool_1_1_refilled: "reachable grow pool_1_1_refilled"
  using reachable_Put [OF reachable_pool_1_1_drained pool_1_1_Put [of grow 0]] .

text \<open>C8. In a reachable state, a batch that one call takes from the growing cache to the
  ready cache has just reached the length \<open>K\<close> of its capacity (the call is a \<^verbatim>\<open>Put\<close>
  that appended its value to it), and a batch that one call takes from the ready cache to
  the growing cache has just become empty (the call is a \<^verbatim>\<open>Get\<close> that removed its only
  value); \<^verbatim>\<open>Put\<close> moves no batch from ready to growing and \<^verbatim>\<open>Get\<close> none from growing to
  ready. Batches are told apart by their addresses. More generally, every batch that enters
  the ready cache has length \<open>K\<close> and every batch that enters the growing cache through
  \<^verbatim>\<open>Get\<close> is empty.\<close>

theorem batch_changes_cache_only_at_boundary:
  assumes "reachable grow p"
  shows
    "(Put grow ch x p = Inr p' \<longrightarrow>
        (\<forall>b' \<in> set (fullPool p'). ptr b' \<in> ptr ` set (emptyPool p) \<longrightarrow>
           length (elems b') = nat (poolSizePerCPU p) \<and> cap b' = nat (poolSizePerCPU p) \<and>
           (\<exists>b \<in> set (emptyPool p). ptr b = ptr b' \<and> elems b' = elems b @ [x])) \<and>
        (\<forall>b' \<in> set (fullPool p'). ptr b' \<notin> ptr ` set (fullPool p) \<longrightarrow>
           length (elems b') = nat (poolSizePerCPU p)) \<and>
        (\<forall>b' \<in> set (emptyPool p'). ptr b' \<notin> ptr ` set (fullPool p))) \<and>
     (Get ch p = Inr (v, p'') \<longrightarrow>
        (\<forall>b' \<in> set (emptyPool p''). ptr b' \<in> ptr ` set (fullPool p) \<longrightarrow>
           elems b' = [] \<and> (\<exists>b \<in> set (fullPool p). ptr b = ptr b' \<and> elems b = [v])) \<and>
        (\<forall>b' \<in> set (emptyPool p''). ptr b' \<notin> ptr ` set (emptyPool p) \<longrightarrow> elems b' = []) \<and>
        (\<forall>b' \<in> set (fullPool p''). ptr b' \<notin> ptr ` set (emptyPool p)))"
proof -
  from assms have inv: "pool_inv p" and own: "ptr_inv p"
    by (rule reachable_pool_inv, rule reachable_ptr_inv)
  show ?thesis
    using Put_moves [OF inv own, of grow ch x p'] Get_moves [OF inv own, of ch v p'']
    by blast
qed

theorem batch_changes_cache_only_at_boundary_witness:
  "reachable id pool_1_1_drained \<and>
   Put id 0 (Some 9) pool_1_1_drained = Inr pool_1_1_refilled \<and>
   emptyPool pool_1_1_drained = [\<lparr>ptr = 0, elems = [], cap = 1\<rparr>] \<and>
   fullPool pool_1_1_refilled = [\<lparr>ptr = 0, elems = [Some 9], cap = 1\<rparr>] \<and>
   list_all (\<lambda>b'. length (elems b') = 1 \<and> cap b' = 1) (fullPool pool_1_1_refilled) \<and>
   reachable id pool_1_1_refilled \<and>
   Get 0 pool_1_1_refilled = Inr (Some 9, pool_1_1_drained) \<and>
   list_all (\<lambda>b'. elems b' = []) (emptyPool pool_1_1_drained)"
proof -
  have e: "emptyPool pool_1_1_drained = [\<lparr>ptr = 0, elems = [], cap = 1\<rparr>]"
          "fullPool pool_1_1_drained = []"
          "fullPool pool_1_1_refilled = [\<lparr>ptr = 0, elems = [Some 9], cap = 1\<rparr>]"
          "emptyPool pool_1_1_refilled = []"
          "nat (poolSizePerCPU pool_1_1_drained) = 1"
    by (simp_all add: pool_1_1_drained_def pool_1_1_refilled_def)
  note put = pool_1_1_Put [of id 0] and get = pool_1_1_Get2 [of 0]
  have a: "list_all (\<lambda>b'. length (elems b') = 1 \<and> cap b' = 1) (fullPool pool_1_1_refilled)"
    using batch_changes_cache_only_at_boundary
      [OF reachable_pool_1_1_drained [of id], of 0 "Some 9" pool_1_1_refilled "Some 1" pool_1_1_drained]
      put
    unfolding e by simp
  have b: "list_all (\<lambda>b'. elems b' = []) (emptyPool pool_1_1_drained)"
    using batch_changes_cache_only_at_boundary
      [OF reachable_pool_1_1_refilled [of id], of 0 "Some 9" pool_1_1_refilled "Some 9" pool_1_1_drained]
      get
    unfolding e by simp
  show ?thesis
    using a b put get reachable_pool_1_1_drained [of id] reachable_pool_1_1_refilled [of id]
    by (simp add: e)
qed

lemma apply_options_last:
  "apply_options options (k0, n0) =
     (last (k0 # [k. OptionPoolSizePerCPU k \<leftarrow> options]),
      last (n0 # [n. OptionInitFullPoolSize n \<leftarrow> options]))"
  by (induction options arbitrary: k0 n0) (auto split: Option.splits)

lemma apply_options_ignores_others:
  "apply_options (filter (\<lambda>opt. opt \<noteq> OtherValue) options) kn = apply_options options kn"
proof (induction options arbitrary: kn)
  case Nil
  show ?case by simp
next
  case (Cons opt options)
  obtain k n where kn: "kn = (k, n)" by (cases kn)
  show ?case unfolding kn using Cons.IH by (cases opt) simp_all
qed

text \<open>C9. The options are processed in order and the last one of each kind wins: before
  validation \<^verbatim>\<open>poolSizePerCPU\<close> is the value of the last \<^verbatim>\<open>OptionPoolSizePerCPU\<close> (the
  default 256 when there is none), \<^verbatim>\<open>initFullPoolSize\<close> the value of the last
  \<^verbatim>\<open>OptionInitFullPoolSize\<close>, and options of any other type change nothing; the pool is
  built from the validated pair.\<close>

theorem options_last_occurrence_wins:
  "apply_options options (POOL_SIZE_PER_CPU, INIT_FULL_POOL_SIZE) =
     (last (256 # [k. OptionPoolSizePerCPU k \<leftarrow> options]),
      last (256 # [n. OptionInitFullPoolSize n \<leftarrow> options])) \<and>
   apply_options (filter (\<lambda>opt. opt \<noteq> OtherValue) options) (k0, n0) =
     apply_options options (k0, n0) \<and>
   NewLockFreePool f (filter (\<lambda>opt. opt \<noteq> OtherValue) options) = NewLockFreePool f options \<and>
   (poolSizePerCPU (NewLockFreePool f options), initFullPoolSize (NewLockFreePool f options)) =
     validate (last (256 # [k. OptionPoolSizePerCPU k \<leftarrow> options]),
               last (256 # [n. OptionInitFullPoolSize n \<leftarrow> options]))"
proof -
  have a: "apply_options options (POOL_SIZE_PER_CPU, INIT_FULL_POOL_SIZE) =
     (last (256 # [k. OptionPoolSizePerCPU k \<leftarrow> options]),
      last (256 # [n. OptionInitFullPoolSize n \<leftarrow> options]))"
    unfolding apply_options_last by (simp add: POOL_SIZE_PER_CPU_def INIT_FULL_POOL_SIZE_def)
  have b: "NewLockFreePool f (filter (\<lambda>opt. opt \<noteq> OtherValue) options) = NewLockFreePool f options"
    by (simp add: NewLockFreePool_def apply_options_ignores_others)
  have c: "(poolSizePerCPU (NewLockFreePool f options), initFullPoolSize (NewLockFreePool f options)) =
     validate (last (256 # [k. OptionPoolSizePerCPU k \<leftarrow> options]),
               last (256 # [n. OptionInitFullPoolSize n \<leftarrow> options]))"
    unfolding a [symmetric] by (simp add: NewLockFreePool_def split: prod.splits)
  show ?thesis using a b c apply_options_ignores_others [of options "(k0, n0)"] by simp
qed

text \<open>C10. \<^verbatim>\<open>Get\<close> never indexes out of bounds: when the configuration is validated and
  every batch of the ready cache holds at least one value, \<^verbatim>\<open>Get\<close> returns a value (a
  batch made by \<^verbatim>\<open>newFullSlice\<close> holds \<open>N \<ge> 1\<close> values); in particular it returns in
  every reachable state, so its panic branches are unreachable, and every sequence of calls
  on a pool just constructed runs to its end.\<close>

theorem Get_index_in_bounds:
  "(config_ok p \<and> list_all (\<lambda>b. 1 \<le> length (elems b)) (fullPool p) \<longrightarrow>
      (\<exists>v p'. Get ch p = Inr (v, p')) \<and>
      (\<exists>b p'. newFullSlice p = Inr (b, p') \<and> 1 \<le> length (elems b))) \<and>
   (reachable grow p \<longrightarrow> (\<exists>v p'. Get ch p = Inr (v, p')) \<and> Get ch p \<noteq> Inl IndexOutOfRange) \<and>
   (\<exists>rs p'. run grow ops (NewLockFreePool f options) = Inr (rs, p'))"
proof -
  have a: "\<exists>v p'. Get ch p = Inr (v, p')"
    if c: "config_ok p" and l: "list_all (\<lambda>b. 1 \<le> length (elems b)) (fullPool p)"
  proof (cases "fullPool p = []")
    case True
    then show ?thesis by (simp add: Get_fresh [OF True c])
  next
    case False
    from sync_get_nonempty [OF False] obtain b rest
      where sg: "sync_get ch (fullPool p) = Some (b, rest)" by blast
    from sync_get_SomeD [OF sg] l have "elems b \<noteq> []" by auto
    then show ?thesis by (simp add: Get_resident [OF sg])
  qed
  have b: "\<exists>b p'. newFullSlice p = Inr (b, p') \<and> 1 \<le> length (elems b)" if c: "config_ok p"
    using c by (auto simp add: newFullSlice_closed config_ok_def)
  have r: "(\<exists>v p'. Get ch p = Inr (v, p')) \<and> Get ch p \<noteq> Inl IndexOutOfRange"
    if "reachable grow p"
    using Get_pool_inv [OF reachable_pool_inv [OF that], of ch] by auto
  have t: "\<exists>rs p'. run grow ops (NewLockFreePool f options) = Inr (rs, p')"
    using run_returns [OF NewLockFreePool_pool_inv, of grow ops f options] by blast
  show ?thesis using a b r t by blast
qed

theorem Get_index_in_bounds_witness:
  "config_ok pool_4_2_after \<and> list_all (\<lambda>b. 1 \<le> length (elems b)) (fullPool pool_4_2_after) \<and>
   fullPool pool_4_2_after \<noteq> [] \<and> reachable id pool_4_2_after \<and>
   (\<exists>v p'. Get 0 pool_4_2_after = Inr (v, p')) \<and>
   (\<exists>b p'. newFullSlice pool_4_2_after = Inr (b, p') \<and> 1 \<le> length (elems b)) \<and>
   Get 0 pool_4_2_after \<noteq> Inl IndexOutOfRange"
proof -
  have r: "reachable id pool_4_2_after" by (rule reachable_pool_4_2_after)
  have c: "config_ok pool_4_2_after" by (simp add: config_ok_def pool_4_2_after_def)
  have l: "list_all (\<lambda>b. 1 \<le> length (elems b)) (fullPool pool_4_2_after)"
          "fullPool pool_4_2_after \<noteq> []"
    by (simp_all add: pool_4_2_after_def)
  show ?thesis
    using Get_index_in_bounds [of pool_4_2_after 0 id "[OpGet 0]" seq_factory "[]"] r c l
    by simp
qed

end
